theory Spec2Isabelle
  imports Complex_Main "HOL-Library.Word"
begin

unbundle bit_operations_syntax

section \<open>Sample converter (services/audioUtils.ts)\<close>

subsection \<open>JavaScript numbers\<close>

text \<open>
  The elements of a \<^verbatim>\<open>Float32Array\<close> are IEEE binary32 values: a finite one is a dyadic
  rational with a 24-bit significand, the others are the two infinities and NaN. A finite
  value is modelled by the real number it denotes (the sign of zero plays no part below).
  The only arithmetic the converter does on a sample is a comparison and one product with
  32768 or 32767; the product of a 24-bit significand with a 15-bit integer has at most 39
  significant bits, so the binary64 product JavaScript computes is the exact real product.
\<close>

datatype jsnum = Num real | PosInf | NegInf | NaN

fun Math_min :: "jsnum \<Rightarrow> jsnum \<Rightarrow> jsnum" where
  "Math_min NaN _ = NaN"
| "Math_min _ NaN = NaN"
| "Math_min NegInf _ = NegInf"
| "Math_min _ NegInf = NegInf"
| "Math_min PosInf y = y"
| "Math_min x PosInf = x"
| "Math_min (Num a) (Num b) = Num (min a b)"

fun Math_max :: "jsnum \<Rightarrow> jsnum \<Rightarrow> jsnum" where
  "Math_max NaN _ = NaN"
| "Math_max _ NaN = NaN"
| "Math_max PosInf _ = PosInf"
| "Math_max _ PosInf = PosInf"
| "Math_max NegInf y = y"
| "Math_max x NegInf = x"
| "Math_max (Num a) (Num b) = Num (max a b)"

text \<open>The comparison \<^verbatim>\<open>a < b\<close>: false as soon as one side is NaN.\<close>

fun js_lt :: "jsnum \<Rightarrow> jsnum \<Rightarrow> bool" where
  "js_lt NaN _ = False"
| "js_lt _ NaN = False"
| "js_lt PosInf _ = False"
| "js_lt _ NegInf = False"
| "js_lt NegInf _ = True"
| "js_lt _ PosInf = True"
| "js_lt (Num a) (Num b) = (a < b)"

fun js_times :: "jsnum \<Rightarrow> jsnum \<Rightarrow> jsnum" where
  "js_times NaN _ = NaN"
| "js_times _ NaN = NaN"
| "js_times (Num a) (Num b) = Num (a * b)"
| "js_times (Num a) PosInf = (if a = 0 then NaN else if 0 < a then PosInf else NegInf)"
| "js_times (Num a) NegInf = (if a = 0 then NaN else if 0 < a then NegInf else PosInf)"
| "js_times PosInf (Num b) = (if b = 0 then NaN else if 0 < b then PosInf else NegInf)"
| "js_times NegInf (Num b) = (if b = 0 then NaN else if 0 < b then NegInf else PosInf)"
| "js_times PosInf PosInf = PosInf"
| "js_times PosInf NegInf = NegInf"
| "js_times NegInf PosInf = NegInf"
| "js_times NegInf NegInf = PosInf"

text \<open>
  Storing a number into an \<^verbatim>\<open>Int16Array\<close> applies ToInt16: NaN and the infinities
  become 0, a finite number is truncated towards zero and reduced modulo \<open>2^16\<close> into the
  two's complement range (the reduction is what \<open>word_of_int\<close> does).
\<close>

definition js_trunc :: "real \<Rightarrow> int" where
  "js_trunc r = (if r < 0 then \<lceil>r\<rceil> else \<lfloor>r\<rfloor>)"

fun ToInt16 :: "jsnum \<Rightarrow> 16 word" where
  "ToInt16 (Num r) = word_of_int (js_trunc r)"
| "ToInt16 _ = 0"

subsection \<open>float32ToInt16\<close>

text \<open>
  \<^verbatim>\<open>const s = Math.max(-1, Math.min(1, float32Array[i]));\<close>
  \<^verbatim>\<open>int16Array[i] = s < 0 ? s * 0x8000 : s * 0x7FFF;\<close>
\<close>

definition float32ToInt16_body :: "jsnum \<Rightarrow> 16 word" where
  "float32ToInt16_body x =
     (let s = Math_max (Num (- 1)) (Math_min (Num 1) x)
      in ToInt16 (if js_lt s (Num 0) then js_times s (Num 32768) else js_times s (Num 32767)))"

text \<open>The \<^verbatim>\<open>for\<close> loop over the index \<open>i\<close>, writing into the array allocated before it.\<close>

function float32ToInt16_loop :: "jsnum list \<Rightarrow> nat \<Rightarrow> 16 word list \<Rightarrow> 16 word list" where
  "float32ToInt16_loop float32Array i int16Array =
     (if i < length float32Array
      then float32ToInt16_loop float32Array (Suc i)
             (int16Array[i := float32ToInt16_body (float32Array ! i)])
      else int16Array)"
  by pat_completeness auto
termination
  by (relation "measure (\<lambda>(fa, i, ia). length fa - i)") auto

declare float32ToInt16_loop.simps [simp del]

text \<open>\<^verbatim>\<open>new Int16Array(n)\<close> is \<open>n\<close> zeros.\<close>

definition float32ToInt16 :: "jsnum list \<Rightarrow> 16 word list" where
  "float32ToInt16 float32Array =
     float32ToInt16_loop float32Array 0 (replicate (length float32Array) 0)"

text \<open>
  What the specification asks of one sample, in its own words: clamp to \<open>[-1, 1]\<close>, then
  scale negative values by 32768 and the others by 32767. \<open>expected_int16\<close> is the integer
  this gives after truncation; the non-finite inputs are listed with what the clamp makes
  of them.
\<close>

definition clamp_scale :: "real \<Rightarrow> real" where
  "clamp_scale r = (let c = max (- 1) (min 1 r) in if c < 0 then c * 32768 else c * 32767)"

fun expected_int16 :: "jsnum \<Rightarrow> int" where
  "expected_int16 (Num r) = js_trunc (clamp_scale r)"
| "expected_int16 PosInf = 32767"
| "expected_int16 NegInf = - 32768"
| "expected_int16 NaN = 0"

subsection \<open>Properties of float32ToInt16\<close>

lemma float32ToInt16_loop_length:
  "length (float32ToInt16_loop fa i ia) = length ia"
proof (induction fa i ia rule: float32ToInt16_loop.induct)
  case (1 fa i ia)
  show ?case
  proof (cases "i < length fa")
    case True
    then show ?thesis
      using "1.IH" by (subst float32ToInt16_loop.simps) simp
  next
    case False
    then show ?thesis
      by (subst float32ToInt16_loop.simps) simp
  qed
qed

lemma float32ToInt16_loop_map:
  "i \<le> length fa \<Longrightarrow> length ia = length fa \<Longrightarrow>
   float32ToInt16_loop fa i ia = take i ia @ map float32ToInt16_body (drop i fa)"
proof (induction fa i ia rule: float32ToInt16_loop.induct)
  case (1 fa i ia)
  show ?case
  proof (cases "i < length fa")
    case True
    let ?ia = "ia[i := float32ToInt16_body (fa ! i)]"
    have step: "float32ToInt16_loop fa i ia = float32ToInt16_loop fa (Suc i) ?ia"
      using True by (subst float32ToInt16_loop.simps) simp
    have ih: "float32ToInt16_loop fa (Suc i) ?ia
              = take (Suc i) ?ia @ map float32ToInt16_body (drop (Suc i) fa)"
      using True "1.prems" by (intro "1.IH") simp_all
    have front: "take (Suc i) ?ia = take i ia @ [float32ToInt16_body (fa ! i)]"
      using True "1.prems" by (simp add: take_Suc_conv_app_nth)
    have rest: "drop i fa = fa ! i # drop (Suc i) fa"
      using True by (simp add: Cons_nth_drop_Suc)
    show ?thesis
      by (simp add: step ih front rest)
  next
    case False
    with "1.prems" have "i = length fa" by simp
    then show ?thesis using "1.prems"
      by (subst float32ToInt16_loop.simps) simp
  qed
qed

lemma float32ToInt16_map: "float32ToInt16 fa = map float32ToInt16_body fa"
  by (simp add: float32ToInt16_def float32ToInt16_loop_map)

lemma clamp_scale_neg:
  "max (- 1) (min 1 r) < 0 \<Longrightarrow> clamp_scale r = max (- 1) (min 1 r) * 32768"
  by (simp add: clamp_scale_def Let_def)

lemma clamp_scale_nonneg:
  "\<not> max (- 1) (min 1 r) < 0 \<Longrightarrow> clamp_scale r = max (- 1) (min 1 r) * 32767"
  by (simp add: clamp_scale_def Let_def)

lemma js_trunc_clamp_scale_range:
  "- 32768 \<le> js_trunc (clamp_scale r) \<and> js_trunc (clamp_scale r) \<le> 32767"
proof -
  define c :: real where "c = max (- 1) (min 1 r)"
  have c: "- 1 \<le> c" "c \<le> 1" unfolding c_def by linarith+
  show ?thesis
  proof (cases "c < 0")
    case True
    have e: "clamp_scale r = c * 32768"
      using True unfolding c_def by (rule clamp_scale_neg)
    have "c * 32768 < 0" "- 32768 \<le> c * 32768" using True c by linarith+
    then have "- 32768 \<le> \<lceil>c * 32768\<rceil>" "\<lceil>c * 32768\<rceil> \<le> 0"
      by linarith+
    then show ?thesis using \<open>c * 32768 < 0\<close> by (simp add: js_trunc_def e)
  next
    case False
    have e: "clamp_scale r = c * 32767"
      using False unfolding c_def by (rule clamp_scale_nonneg)
    have "0 \<le> c * 32767" "c * 32767 \<le> 32767" using False c by linarith+
    then have "0 \<le> \<lfloor>c * 32767\<rfloor>" "\<lfloor>c * 32767\<rfloor> \<le> 32767"
      by linarith+
    then show ?thesis using \<open>0 \<le> c * 32767\<close> by (simp add: js_trunc_def e)
  qed
qed

lemma sint_word_of_int_16:
  "- 32768 \<le> k \<Longrightarrow> k \<le> 32767 \<Longrightarrow> sint (word_of_int k :: 16 word) = k"
  by (simp add: sint_sbintrunc' signed_take_bit_int_eq_self)

lemma float32ToInt16_body_Num:
  "float32ToInt16_body (Num r) = word_of_int (js_trunc (clamp_scale r))"
proof -
  define c :: real where "c = max (- 1) (min 1 r)"
  have s: "Math_max (Num (- 1)) (Math_min (Num 1) (Num r)) = Num c"
    unfolding c_def by simp
  have body: "float32ToInt16_body (Num r)
      = ToInt16 (if c < 0 then Num (c * 32768) else Num (c * 32767))"
    unfolding float32ToInt16_body_def s Let_def by simp
  show ?thesis
  proof (cases "c < 0")
    case True
    then have "clamp_scale r = c * 32768"
      unfolding c_def by (rule clamp_scale_neg)
    then show ?thesis using True by (simp add: body)
  next
    case False
    then have "clamp_scale r = c * 32767"
      unfolding c_def by (rule clamp_scale_nonneg)
    then show ?thesis using False by (simp add: body)
  qed
qed

lemma float32ToInt16_body_PosInf: "float32ToInt16_body PosInf = word_of_int 32767"
proof -
  have "js_trunc (1 * 32767) = 32767" by (simp add: js_trunc_def)
  then show ?thesis by (simp add: float32ToInt16_body_def Let_def)
qed

lemma float32ToInt16_body_NegInf: "float32ToInt16_body NegInf = word_of_int (- 32768)"
proof -
  have "js_trunc (- 1 * 32768) = - 32768" by (simp add: js_trunc_def)
  then show ?thesis by (simp add: float32ToInt16_body_def Let_def)
qed

lemma float32ToInt16_body_NaN: "float32ToInt16_body NaN = 0"
  by (simp add: float32ToInt16_body_def Let_def)

lemma sint_float32ToInt16_body: "sint (float32ToInt16_body x) = expected_int16 x"
proof (cases x)
  case (Num r)
  have "sint (word_of_int (js_trunc (clamp_scale r)) :: 16 word) = js_trunc (clamp_scale r)"
    using js_trunc_clamp_scale_range [of r] by (intro sint_word_of_int_16) simp_all
  then show ?thesis using Num by (simp add: float32ToInt16_body_Num)
next
  case PosInf
  have "sint (word_of_int 32767 :: 16 word) = 32767"
    by (rule sint_word_of_int_16) simp_all
  then show ?thesis using PosInf by (simp only: float32ToInt16_body_PosInf expected_int16.simps)
next
  case NegInf
  have "sint (word_of_int (- 32768) :: 16 word) = - 32768"
    by (rule sint_word_of_int_16) simp_all
  then show ?thesis using NegInf by (simp only: float32ToInt16_body_NegInf expected_int16.simps)
next
  case NaN
  then show ?thesis by (simp add: float32ToInt16_body_NaN)
qed

lemma expected_int16_boundaries:
  "expected_int16 (Num (- 1)) = - 32768" "expected_int16 (Num 0) = 0"
  "expected_int16 (Num 1) = 32767"
  by (simp_all add: clamp_scale_def js_trunc_def)

lemma map_sint_float32ToInt16: "map sint (float32ToInt16 xs) = map expected_int16 xs"
  by (simp add: float32ToInt16_map sint_float32ToInt16_body)

text \<open>
  Claim C3. Every sample is clamped to \<open>[-1, 1]\<close> and then scaled asymmetrically (negative
  values by 32768, the others by 32767): read as a signed 16-bit integer, each output
  element is the truncation of the clamped and scaled sample, with no wrap-around. The
  inputs -1, 0 and 1 encode to -32768, 0 and 32767.
\<close>

theorem float32ToInt16_clamps_and_scales:
  "map sint (float32ToInt16 xs) = map expected_int16 xs \<and>
   map sint (float32ToInt16 [Num (- 1), Num 0, Num 1]) = [- 32768, 0, 32767]"
  by (simp only: map_sint_float32ToInt16 list.map expected_int16_boundaries simp_thms)

text \<open>
  Claim C9. \<open>float32ToInt16\<close> is total (its loop terminates, as the termination proof
  above shows, and no step of it can fail) and returns as many elements as it was given;
  the empty input gives the empty output.
\<close>

theorem float32ToInt16_total_length:
  "length (float32ToInt16 xs) = length xs \<and> float32ToInt16 [] = []"
  by (simp add: float32ToInt16_map)


section \<open>Wire format (services/audioUtils.ts, components/LiveSession.tsx)\<close>

subsection \<open>arrayBufferToBase64\<close>

text \<open>
  \<^verbatim>\<open>pcmData.buffer\<close> viewed through a \<^verbatim>\<open>Uint8Array\<close>: the two bytes of every 16-bit
  element, low byte first (typed arrays use the platform's byte order, little-endian on
  every platform the application runs on).
\<close>

definition bytes_of_int16 :: "16 word \<Rightarrow> 8 word list" where
  "bytes_of_int16 w = [ucast w, ucast (drop_bit 8 w)]"

definition buffer :: "16 word list \<Rightarrow> 8 word list" where
  "buffer int16Array = concat (map bytes_of_int16 int16Array)"

text \<open>
  \<^verbatim>\<open>String.fromCharCode(bytes[i])\<close> is the one-character string whose code unit is the
  byte; a \<open>char\<close> is exactly such a code unit below 256.
\<close>

definition String_fromCharCode :: "8 word \<Rightarrow> char" where
  "String_fromCharCode b = char_of (unat b)"

text \<open>The loop \<^verbatim>\<open>for (let i = 0; i < len; i++) binary += String.fromCharCode(bytes[i])\<close>.\<close>

function arrayBufferToBase64_loop :: "8 word list \<Rightarrow> nat \<Rightarrow> string \<Rightarrow> string" where
  "arrayBufferToBase64_loop bytes i binary =
     (if i < length bytes
      then arrayBufferToBase64_loop bytes (Suc i) (binary @ [String_fromCharCode (bytes ! i)])
      else binary)"
  by pat_completeness auto
termination
  by (relation "measure (\<lambda>(bytes, i, binary). length bytes - i)") auto

declare arrayBufferToBase64_loop.simps [simp del]

text \<open>
  The browser's \<^verbatim>\<open>btoa\<close>: standard base64 (RFC 4648) of a string of code units below
  256. Three bytes make a 24-bit number that is cut into four 6-bit digits; a last group
  of two bytes or one byte is padded with \<open>=\<close>.
\<close>

definition base64_alphabet :: string where
  "base64_alphabet = ''ABCDEFGHIJKLMNOPQRSTUVWXYZabcdefghijklmnopqrstuvwxyz0123456789+/''"

definition base64_char :: "nat \<Rightarrow> char" where
  "base64_char i = base64_alphabet ! i"

fun btoa :: "string \<Rightarrow> string" where
  "btoa (a # b # c # rest) =
     (let n = of_char a * 65536 + of_char b * 256 + of_char c :: nat
      in [base64_char (n div 262144), base64_char (n div 4096 mod 64),
          base64_char (n div 64 mod 64), base64_char (n mod 64)]) @ btoa rest"
| "btoa [a, b] =
     (let n = of_char a * 65536 + of_char b * 256 :: nat
      in [base64_char (n div 262144), base64_char (n div 4096 mod 64),
          base64_char (n div 64 mod 64), CHR ''=''])"
| "btoa [a] =
     (let n = of_char a * 65536 :: nat
      in [base64_char (n div 262144), base64_char (n div 4096 mod 64), CHR ''='', CHR ''=''])"
| "btoa [] = []"

definition arrayBufferToBase64 :: "8 word list \<Rightarrow> string" where
  "arrayBufferToBase64 buf = btoa (arrayBufferToBase64_loop buf 0 [])"

text \<open>
  The payload of one frame, as \<^verbatim>\<open>processor.onaudioprocess\<close> computes it:
  \<^verbatim>\<open>const pcmData = float32ToInt16(inputData);\<close>
  \<^verbatim>\<open>const base64Data = arrayBufferToBase64(pcmData.buffer);\<close>
\<close>

definition base64Data :: "jsnum list \<Rightarrow> string" where
  "base64Data inputData = arrayBufferToBase64 (buffer (float32ToInt16 inputData))"

subsection \<open>The inverse decode\<close>

text \<open>
  Modelled from the spec: the inverse decode of the round-trip property is not part of the
  repository, which only encodes. It is written here as the inverse of each encoding step
  in turn: base64 text to bytes, pairs of bytes (low byte first) to 16-bit integers, and a
  16-bit integer to an amplitude by undoing the asymmetric scaling (a negative integer is
  divided by 32768, the others by 32767).
\<close>

fun base64_find :: "char \<Rightarrow> string \<Rightarrow> nat" where
  "base64_find c [] = 0"
| "base64_find c (x # xs) = (if x = c then 0 else Suc (base64_find c xs))"

definition base64_index :: "char \<Rightarrow> nat" where
  "base64_index c = base64_find c base64_alphabet"

fun atob :: "string \<Rightarrow> string" where
  "atob (w # x # y # z # rest) =
     (if y = CHR ''='' then
        (let n = base64_index w * 262144 + base64_index x * 4096
         in [char_of (n div 65536)])
      else if z = CHR ''='' then
        (let n = base64_index w * 262144 + base64_index x * 4096 + base64_index y * 64
         in [char_of (n div 65536), char_of (n div 256 mod 256)])
      else
        (let n = base64_index w * 262144 + base64_index x * 4096 + base64_index y * 64
                 + base64_index z
         in [char_of (n div 65536), char_of (n div 256 mod 256), char_of (n mod 256)])
        @ atob rest)"
| "atob _ = []"

fun int16s_of_bytes :: "8 word list \<Rightarrow> 16 word list" where
  "int16s_of_bytes (lo # hi # rest) = (ucast lo OR push_bit 8 (ucast hi)) # int16s_of_bytes rest"
| "int16s_of_bytes _ = []"

definition int16ToFloat :: "16 word \<Rightarrow> real" where
  "int16ToFloat w =
     (if sint w < 0 then real_of_int (sint w) / 32768 else real_of_int (sint w) / 32767)"

definition decodeWire :: "string \<Rightarrow> real list" where
  "decodeWire s =
     map int16ToFloat (int16s_of_bytes (map (\<lambda>c. word_of_nat (of_char c)) (atob s)))"

text \<open>
  The quantization step at an amplitude: the spacing of the levels the decode can return
  on that amplitude's side of zero.
\<close>

definition quantization_step :: "real \<Rightarrow> real" where
  "quantization_step x = (if x < 0 then 1 / 32768 else 1 / 32767)"

subsection \<open>Every encoding step is undone by its inverse\<close>

lemma base64_table: "list_all (\<lambda>i. base64_index (base64_char i) = i \<and> base64_char i \<noteq> CHR ''='') [0..<64]"
  by code_simp

lemma base64_index_char: "i < 64 \<Longrightarrow> base64_index (base64_char i) = i"
  using base64_table by (simp add: list_all_iff)

lemma base64_char_not_pad: "i < 64 \<Longrightarrow> base64_char i \<noteq> CHR ''=''"
  using base64_table by (simp add: list_all_iff)

lemma arrayBufferToBase64_loop_map:
  "arrayBufferToBase64_loop bytes i binary = binary @ map String_fromCharCode (drop i bytes)"
proof (induction bytes i binary rule: arrayBufferToBase64_loop.induct)
  case (1 bytes i binary)
  show ?case
  proof (cases "i < length bytes")
    case True
    then have "drop i bytes = bytes ! i # drop (Suc i) bytes"
      by (simp add: Cons_nth_drop_Suc)
    then show ?thesis
      using True "1.IH" by (subst arrayBufferToBase64_loop.simps) simp
  next
    case False
    then show ?thesis
      by (subst arrayBufferToBase64_loop.simps) simp
  qed
qed

lemma int16_of_bytes_of_int16:
  "(ucast (ucast w :: 8 word) OR push_bit 8 (ucast (ucast (drop_bit 8 w) :: 8 word))) = (w :: 16 word)"
  by (rule bit_word_eqI) (auto simp add: bit_simps)

lemma int16s_of_bytes_buffer: "int16s_of_bytes (buffer ws) = ws"
  by (induction ws) (simp_all add: buffer_def bytes_of_int16_def int16_of_bytes_of_int16)

lemma byte_of_fromCharCode: "word_of_nat (of_char (String_fromCharCode b)) = b"
proof -
  have "unat b < 2 ^ LENGTH(8)" by (rule unsigned_less)
  then have "unat b < 256" by simp
  then show ?thesis by (simp add: String_fromCharCode_def)
qed

lemma div_mod_qr:
  fixes q r m :: nat
  assumes "r < m"
  shows "(q * m + r) div m = q" and "(q * m + r) mod m = r"
  using assms by simp_all

lemma sextets_recombine:
  fixes n :: nat
  shows "n div 262144 * 262144 + n div 4096 mod 64 * 4096 + n div 64 mod 64 * 64 + n mod 64 = n"
proof -
  define q1 where "q1 = n div 64"
  define q2 where "q2 = q1 div 64"
  define q3 where "q3 = q2 div 64"
  have d2: "n div 4096 = q2"
    unfolding q2_def q1_def by (simp add: div_mult2_eq)
  have d3: "n div 262144 = q3"
    unfolding q3_def q2_def q1_def by (simp add: div_mult2_eq)
  have e1: "n = q1 * 64 + n mod 64" unfolding q1_def by simp
  have e2: "q1 = q2 * 64 + q1 mod 64" unfolding q2_def by simp
  have e3: "q2 = q3 * 64 + q2 mod 64" unfolding q3_def by simp
  have "q3 * 262144 + q2 mod 64 * 4096 + q1 mod 64 * 64 + n mod 64 = n"
    using e1 e2 e3 by linarith
  then show ?thesis
    unfolding d2 d3 q1_def [symmetric] .
qed

lemma sextet_bounds:
  fixes n :: nat
  assumes "n < 16777216"
  shows "n div 262144 < 64"
  using assms by (simp add: less_mult_imp_div_less)

lemma bytes_split3:
  fixes a b c :: nat
  assumes "a < 256" "b < 256" "c < 256"
  shows "(a * 65536 + b * 256 + c) div 65536 = a"
    and "(a * 65536 + b * 256 + c) div 256 mod 256 = b"
    and "(a * 65536 + b * 256 + c) mod 256 = c"
proof -
  have lo: "b * 256 + c < 65536" using assms by linarith
  have "(a * 65536 + (b * 256 + c)) div 65536 = a"
    using lo by (rule div_mod_qr(1))
  then show "(a * 65536 + b * 256 + c) div 65536 = a" by (simp add: add.assoc)
  have r: "a * 65536 + b * 256 + c = (a * 256 + b) * 256 + c" by simp
  have "((a * 256 + b) * 256 + c) div 256 = a * 256 + b"
    using assms(3) by (rule div_mod_qr(1))
  moreover have "(a * 256 + b) mod 256 = b"
    using assms(2) by (rule div_mod_qr(2))
  ultimately show "(a * 65536 + b * 256 + c) div 256 mod 256 = b"
    unfolding r by simp
  have "((a * 256 + b) * 256 + c) mod 256 = c"
    using assms(3) by (rule div_mod_qr(2))
  then show "(a * 65536 + b * 256 + c) mod 256 = c"
    unfolding r .
qed

lemma atob_group3:
  fixes a b c :: char
  defines "n \<equiv> of_char a * 65536 + of_char b * 256 + of_char c :: nat"
  shows "atob (base64_char (n div 262144) # base64_char (n div 4096 mod 64) #
               base64_char (n div 64 mod 64) # base64_char (n mod 64) # rest)
         = a # b # c # atob rest"
proof -
  have bnd: "of_char a < (256::nat)" "of_char b < (256::nat)" "of_char c < (256::nat)"
    by (rule nat_of_char_less_256)+
  then have "n < 16777216" unfolding n_def by linarith
  then have i1: "n div 262144 < 64" by (rule sextet_bounds)
  have i2: "n div 4096 mod 64 < 64" and i3: "n div 64 mod 64 < 64" and i4: "n mod 64 < 64"
    by simp_all
  have m: "n div 262144 * 262144 + n div 4096 mod 64 * 4096 + n div 64 mod 64 * 64 + n mod 64 = n"
    by (rule sextets_recombine)
  have by1: "n div 65536 = of_char a" and by2: "n div 256 mod 256 = of_char b"
    and by3: "n mod 256 = of_char c"
    unfolding n_def using bnd by (rule bytes_split3)+
  have c1: "char_of (n div 65536) = a" by (simp only: by1 char_of_char)
  have "char_of (n div 256 mod 256) = b" by (simp only: by2 char_of_char)
  then have c2: "char_of (n div 256) = b" by simp
  have "char_of (n mod 256) = c" by (simp only: by3 char_of_char)
  then have c3: "char_of n = c" by simp
  show ?thesis
    by (simp add: base64_index_char [OF i1] base64_index_char [OF i2] base64_index_char [OF i3]
          base64_index_char [OF i4] base64_char_not_pad [OF i3] base64_char_not_pad [OF i4]
          m c1 c2 c3)
qed


lemma atob_group2:
  fixes a b :: char
  defines "n \<equiv> of_char a * 65536 + of_char b * 256 :: nat"
  shows "atob [base64_char (n div 262144), base64_char (n div 4096 mod 64),
               base64_char (n div 64 mod 64), CHR ''=''] = [a, b]"
proof -
  have bnd: "of_char a < (256::nat)" "of_char b < (256::nat)" "(0::nat) < 256"
    by (simp_all add: nat_of_char_less_256)
  have n0: "n = of_char a * 65536 + of_char b * 256 + 0" unfolding n_def by simp
  have "n < 16777216" unfolding n_def using bnd by linarith
  then have i1: "n div 262144 < 64" by (rule sextet_bounds)
  have i2: "n div 4096 mod 64 < 64" and i3: "n div 64 mod 64 < 64"
    by simp_all
  have "n = (of_char a * 1024 + of_char b * 4) * 64" unfolding n_def by simp
  then have z: "n mod 64 = 0" by simp
  have m: "n div 262144 * 262144 + n div 4096 mod 64 * 4096 + n div 64 mod 64 * 64 = n"
    using sextets_recombine [of n] z by simp
  have by1: "n div 65536 = of_char a" and by2: "n div 256 mod 256 = of_char b"
    unfolding n0 using bnd by (rule bytes_split3)+
  have c1: "char_of (n div 65536) = a" by (simp only: by1 char_of_char)
  have "char_of (n div 256 mod 256) = b" by (simp only: by2 char_of_char)
  then have c2: "char_of (n div 256) = b" by simp
  show ?thesis
    by (simp add: base64_index_char [OF i1] base64_index_char [OF i2] base64_index_char [OF i3]
          base64_char_not_pad [OF i3] m c1 c2)
qed

lemma atob_group1:
  fixes a :: char
  defines "n \<equiv> of_char a * 65536 :: nat"
  shows "atob [base64_char (n div 262144), base64_char (n div 4096 mod 64),
               CHR ''='', CHR ''=''] = [a]"
proof -
  have bnd: "of_char a < (256::nat)" "(0::nat) < 256" "(0::nat) < 256"
    by (simp_all add: nat_of_char_less_256)
  have n0: "n = of_char a * 65536 + 0 * 256 + 0" unfolding n_def by simp
  have "n < 16777216" unfolding n_def using bnd by linarith
  then have i1: "n div 262144 < 64" by (rule sextet_bounds)
  have i2: "n div 4096 mod 64 < 64" by simp
  have "n = (of_char a * 1024) * 64" unfolding n_def by simp
  then have z: "n mod 64 = 0" by simp
  have "n div 64 = of_char a * 16 * 64" unfolding n_def by simp
  then have z2: "n div 64 mod 64 = 0" by simp
  have m: "n div 262144 * 262144 + n div 4096 mod 64 * 4096 = n"
    using sextets_recombine [of n] z z2 by simp
  have by1: "n div 65536 = of_char a"
    unfolding n0 using bnd by (rule bytes_split3(1))
  have c1: "char_of (n div 65536) = a" by (simp only: by1 char_of_char)
  show ?thesis
    by (simp add: base64_index_char [OF i1] base64_index_char [OF i2] m c1)
qed

lemma atob_btoa: "atob (btoa s) = s"
proof (induction s rule: btoa.induct)
  case (1 a b c rest)
  then show ?case by (simp only: btoa.simps Let_def append.simps atob_group3)
next
  case (2 a b)
  show ?case by (simp only: btoa.simps Let_def atob_group2)
next
  case (3 a)
  show ?case by (simp only: btoa.simps Let_def atob_group1)
next
  case 4
  show ?case by simp
qed

lemma int16ToFloat_body_neg:
  fixes x :: real
  assumes "- 1 \<le> x" "x < 0"
  shows "\<bar>x - int16ToFloat (float32ToInt16_body (Num x))\<bar> < 1 / 32768"
proof -
  have c: "max (- 1) (min 1 x) = x" using assms by simp
  have cs: "clamp_scale x = x * 32768"
    using assms clamp_scale_neg [of x] by (simp only: c)
  have neg: "x * 32768 < 0" using assms by simp
  define q where "q = \<lceil>x * 32768\<rceil>"
  have tr: "js_trunc (clamp_scale x) = q"
    using neg by (simp add: js_trunc_def cs q_def)
  have s: "sint (float32ToInt16_body (Num x)) = q"
    using sint_float32ToInt16_body [of "Num x"] tr by simp
  have q1: "x * 32768 \<le> real_of_int q" and q2: "real_of_int q < x * 32768 + 1"
    unfolding q_def using ceiling_correct [of "x * 32768"] by linarith+
  show ?thesis
  proof (cases "q < 0")
    case True
    then have "int16ToFloat (float32ToInt16_body (Num x)) = real_of_int q / 32768"
      by (simp add: int16ToFloat_def s)
    then show ?thesis using q1 q2 by (simp add: field_simps)
  next
    case False
    have "real_of_int q < 1" using q2 neg by linarith
    then have "q = 0" using False by linarith
    then have "int16ToFloat (float32ToInt16_body (Num x)) = 0"
      by (simp add: int16ToFloat_def s)
    then show ?thesis using q2 \<open>q = 0\<close> assms by (simp add: field_simps)
  qed
qed

lemma int16ToFloat_body_nonneg:
  fixes x :: real
  assumes "0 \<le> x" "x \<le> 1"
  shows "\<bar>x - int16ToFloat (float32ToInt16_body (Num x))\<bar> < 1 / 32767"
proof -
  have c: "max (- 1) (min 1 x) = x" using assms by simp
  have cs: "clamp_scale x = x * 32767"
    using clamp_scale_nonneg [of x] assms unfolding c by simp
  have nn: "\<not> x * 32767 < 0" using assms by simp
  define q where "q = \<lfloor>x * 32767\<rfloor>"
  have tr: "js_trunc (clamp_scale x) = q"
    using nn by (simp add: js_trunc_def cs q_def)
  have s: "sint (float32ToInt16_body (Num x)) = q"
    using sint_float32ToInt16_body [of "Num x"] tr by simp
  have q1: "real_of_int q \<le> x * 32767" and q2: "x * 32767 < real_of_int q + 1"
    unfolding q_def using floor_correct [of "x * 32767"] by linarith+
  have "0 \<le> q" unfolding q_def using assms by simp
  then have "int16ToFloat (float32ToInt16_body (Num x)) = real_of_int q / 32767"
    by (simp add: int16ToFloat_def s)
  then show ?thesis using q1 q2 by (simp add: field_simps)
qed


lemma pcm_of_base64Data:
  "int16s_of_bytes (map (\<lambda>c. word_of_nat (of_char c)) (atob (base64Data samples)))
     = float32ToInt16 samples"
proof -
  have "map (\<lambda>c. word_of_nat (of_char c)) (map String_fromCharCode bs) = bs" for bs :: "8 word list"
    by (induction bs) (simp_all add: byte_of_fromCharCode)
  then show ?thesis
    by (simp add: base64Data_def arrayBufferToBase64_def arrayBufferToBase64_loop_map
          atob_btoa int16s_of_bytes_buffer)
qed

lemma decodeWire_base64Data:
  "decodeWire (base64Data samples) = map (\<lambda>x. int16ToFloat (float32ToInt16_body x)) samples"
  by (simp add: decodeWire_def pcm_of_base64Data float32ToInt16_map)

lemma within_quantization_step:
  fixes x :: real
  assumes "- 1 \<le> x" "x \<le> 1"
  shows "\<bar>x - int16ToFloat (float32ToInt16_body (Num x))\<bar> < quantization_step x"
proof (cases "x < 0")
  case True
  then show ?thesis
    using int16ToFloat_body_neg [of x] assms by (simp add: quantization_step_def)
next
  case False
  then show ?thesis
    using int16ToFloat_body_nonneg [of x] assms by (simp add: quantization_step_def)
qed


text \<open>
  A frame of three samples, by hand: -1, 1/4 and 1 become the integers -32768, 8191 and
  32767, the bytes \<open>00 80 FF 1F FF 7F\<close>, and the text below.
\<close>

lemma base64Data_example: "base64Data [Num (- 1), Num (1 / 4), Num 1] = ''AID/H/9/''"
  by (simp add: base64Data_def float32ToInt16_map float32ToInt16_body_def js_trunc_def
        buffer_def bytes_of_int16_def arrayBufferToBase64_def arrayBufferToBase64_loop_map
        String_fromCharCode_def base64_char_def base64_alphabet_def)

text \<open>
  Claim C4. For every amplitude sequence with all values in \<open>[-1, 1]\<close>, encoding it
  (\<open>float32ToInt16\<close>, then the bytes of the buffer, then base64) and applying the inverse
  decode gives back a sequence of the same length in which every sample is less than one
  quantization step away from the original.
\<close>

theorem wire_format_round_trip:
  "list_all (\<lambda>x. - 1 \<le> x \<and> x \<le> 1) xs \<Longrightarrow>
   list_all2 (\<lambda>x y. \<bar>x - y\<bar> < quantization_step x) xs (decodeWire (base64Data (map Num xs)))"
  by (induction xs) (simp_all add: decodeWire_base64Data within_quantization_step)

theorem wire_format_round_trip_witness:
  "list_all (\<lambda>x. - 1 \<le> x \<and> x \<le> 1) [- 1, 1 / 4, 1 :: real] \<and>
   list_all2 (\<lambda>x y. \<bar>x - y\<bar> < quantization_step x) [- 1, 1 / 4, 1]
     (decodeWire (base64Data [Num (- 1), Num (1 / 4), Num 1]))"
  using wire_format_round_trip [of "[- 1, 1 / 4, 1]"] by simp

section \<open>Transcript reconciler (types.ts, App.tsx)\<close>

text \<open>
  Strings are lists of bytes here: a JavaScript string is represented by its UTF-8
  encoding. The operations below only concatenate strings, compare them with ASCII
  constants and replace the ASCII double quote, all of which commute with the encoding.
  The field \<^verbatim>\<open>text\<close> of a segment is called \<open>seg_text\<close>, and the parameter
  \<^verbatim>\<open>text\<close> of \<^verbatim>\<open>handleLiveUpdate\<close> is called \<open>incoming\<close>.
\<close>

datatype Gender = Masculino | Femenino | Desconocido

record TranscriptSegment =
  speaker :: string
  gender :: Gender
  timestamp :: string
  seg_text :: string

text \<open>
  The state updater that \<^verbatim>\<open>handleLiveUpdate\<close> passes to \<^verbatim>\<open>setTranscripts\<close>. \<open>now\<close> is
  what \<^verbatim>\<open>new Date().toLocaleTimeString(...)\<close> returns when the updater runs.
  \<^verbatim>\<open>prev[prev.length - 1]\<close> is \<^verbatim>\<open>undefined\<close> on the empty list, which the test
  \<^verbatim>\<open>last && ...\<close> rejects.
\<close>

definition handleLiveUpdate ::
  "string \<Rightarrow> TranscriptSegment list \<Rightarrow> string \<Rightarrow> TranscriptSegment list" where
  "handleLiveUpdate now prev incoming =
     (let last = (if length prev = 0 then None else Some (prev ! (length prev - 1)))
      in case last of
           Some l \<Rightarrow>
             if speaker l = ''En Vivo''
             then prev[length prev - 1 := l\<lparr>seg_text := seg_text l @ incoming\<rparr>]
             else prev @ [\<lparr>speaker = ''En Vivo'', gender = Desconocido,
                            timestamp = now, seg_text = incoming\<rparr>]
         | None \<Rightarrow>
             prev @ [\<lparr>speaker = ''En Vivo'', gender = Desconocido,
                      timestamp = now, seg_text = incoming\<rparr>])"

text \<open>
  The callback \<^verbatim>\<open>(text, isFinal) => { onTranscriptionUpdate(text); }\<close> that
  \<^verbatim>\<open>LiveSession\<close> hands to the service client: the flag is dropped.
\<close>

definition onTranscription ::
  "string \<Rightarrow> TranscriptSegment list \<Rightarrow> string \<times> bool \<Rightarrow> TranscriptSegment list" where
  "onTranscription now prev ev = (case ev of (incoming, isFinal) \<Rightarrow> handleLiveUpdate now prev incoming)"

text \<open>
  Events are applied one after the other, in the order of their delivery; each comes with
  the clock reading at its arrival.
\<close>

fun deliver ::
  "TranscriptSegment list \<Rightarrow> (string \<times> string \<times> bool) list \<Rightarrow> TranscriptSegment list" where
  "deliver transcripts [] = transcripts"
| "deliver transcripts ((now, ev) # evs) = deliver (onTranscription now transcripts ev) evs"

subsection \<open>Properties of the reconciler\<close>

lemma handleLiveUpdate_append:
  "prev \<noteq> [] \<Longrightarrow> speaker (last prev) = ''En Vivo'' \<Longrightarrow>
   handleLiveUpdate now prev incoming
     = butlast prev @ [(last prev)\<lparr>seg_text := seg_text (last prev) @ incoming\<rparr>]"
  by (cases prev rule: rev_cases) (simp_all add: handleLiveUpdate_def Let_def last_conv_nth)

lemma handleLiveUpdate_new:
  "prev = [] \<or> speaker (last prev) \<noteq> ''En Vivo'' \<Longrightarrow>
   handleLiveUpdate now prev incoming
     = prev @ [\<lparr>speaker = ''En Vivo'', gender = Desconocido, timestamp = now,
                seg_text = incoming\<rparr>]"
  by (cases prev rule: rev_cases) (auto simp add: handleLiveUpdate_def Let_def last_conv_nth)

text \<open>
  Claim C2. If the list is non-empty and its last segment's speaker is the live label,
  the update returns the list with the incoming text appended to the last segment's text;
  otherwise it returns the list extended by one segment with the live label, unknown
  gender, the current clock reading and the incoming text. The events \<open>Hola\<close>,
  \<open> mundo\<close>, \<open> hoy\<close> delivered to the empty transcript leave exactly one segment, whose
  text is \<open>Hola mundo hoy\<close>.
\<close>

theorem handleLiveUpdate_reconciles:
  "handleLiveUpdate now prev incoming =
     (if prev \<noteq> [] \<and> speaker (last prev) = ''En Vivo''
      then butlast prev @ [(last prev)\<lparr>seg_text := seg_text (last prev) @ incoming\<rparr>]
      else prev @ [\<lparr>speaker = ''En Vivo'', gender = Desconocido,
                     timestamp = now, seg_text = incoming\<rparr>]) \<and>
   deliver [] [(t1, ''Hola'', False), (t2, '' mundo'', False), (t3, '' hoy'', True)]
     = [\<lparr>speaker = ''En Vivo'', gender = Desconocido, timestamp = t1,
         seg_text = ''Hola mundo hoy''\<rparr>]"
proof
  show "handleLiveUpdate now prev incoming =
     (if prev \<noteq> [] \<and> speaker (last prev) = ''En Vivo''
      then butlast prev @ [(last prev)\<lparr>seg_text := seg_text (last prev) @ incoming\<rparr>]
      else prev @ [\<lparr>speaker = ''En Vivo'', gender = Desconocido,
                     timestamp = now, seg_text = incoming\<rparr>])"
    using handleLiveUpdate_append [of prev now incoming]
      handleLiveUpdate_new [of prev now incoming]
    by (cases "prev \<noteq> [] \<and> speaker (last prev) = ''En Vivo''") simp_all
next
  show "deliver [] [(t1, ''Hola'', False), (t2, '' mundo'', False), (t3, '' hoy'', True)]
     = [\<lparr>speaker = ''En Vivo'', gender = Desconocido, timestamp = t1,
         seg_text = ''Hola mundo hoy''\<rparr>]"
    by (simp add: onTranscription_def handleLiveUpdate_def Let_def)
qed

text \<open>
  Claim C10. An update changes at most the last segment: every segment before the last is
  as it was. When the update appends, the list keeps its length and the last segment
  keeps its speaker, gender and timestamp, its text being the old text followed by the
  incoming text. When it does not append, the whole old list, its last segment included,
  is a prefix of the result.
\<close>

theorem handleLiveUpdate_frame:
  "take (length prev - 1) (handleLiveUpdate now prev incoming) = take (length prev - 1) prev \<and>
   (prev \<noteq> [] \<and> speaker (last prev) = ''En Vivo'' \<longrightarrow>
      length (handleLiveUpdate now prev incoming) = length prev \<and>
      speaker (last (handleLiveUpdate now prev incoming)) = speaker (last prev) \<and>
      gender (last (handleLiveUpdate now prev incoming)) = gender (last prev) \<and>
      timestamp (last (handleLiveUpdate now prev incoming)) = timestamp (last prev) \<and>
      seg_text (last (handleLiveUpdate now prev incoming)) = seg_text (last prev) @ incoming) \<and>
   (prev = [] \<or> speaker (last prev) \<noteq> ''En Vivo'' \<longrightarrow>
      take (length prev) (handleLiveUpdate now prev incoming) = prev)"
proof (cases "prev \<noteq> [] \<and> speaker (last prev) = ''En Vivo''")
  case True
  then have "handleLiveUpdate now prev incoming
     = butlast prev @ [(last prev)\<lparr>seg_text := seg_text (last prev) @ incoming\<rparr>]"
    by (simp add: handleLiveUpdate_append)
  then show ?thesis using True by (simp add: butlast_conv_take)
next
  case False
  then have "handleLiveUpdate now prev incoming
     = prev @ [\<lparr>speaker = ''En Vivo'', gender = Desconocido, timestamp = now,
                seg_text = incoming\<rparr>]"
    by (intro handleLiveUpdate_new) auto
  then show ?thesis using False by auto
qed

theorem handleLiveUpdate_frame_witness:
  "length (handleLiveUpdate ''00:07''
      [\<lparr>speaker = ''Hablante 1'', gender = Femenino, timestamp = ''00:01'', seg_text = ''Buenas''\<rparr>,
       \<lparr>speaker = ''En Vivo'', gender = Desconocido, timestamp = ''00:05'', seg_text = ''Hola''\<rparr>]
      '' mundo'') = 2 \<and>
   timestamp (last (handleLiveUpdate ''00:07''
      [\<lparr>speaker = ''Hablante 1'', gender = Femenino, timestamp = ''00:01'', seg_text = ''Buenas''\<rparr>,
       \<lparr>speaker = ''En Vivo'', gender = Desconocido, timestamp = ''00:05'', seg_text = ''Hola''\<rparr>]
      '' mundo'')) = ''00:05'' \<and>
   seg_text (last (handleLiveUpdate ''00:07''
      [\<lparr>speaker = ''Hablante 1'', gender = Femenino, timestamp = ''00:01'', seg_text = ''Buenas''\<rparr>,
       \<lparr>speaker = ''En Vivo'', gender = Desconocido, timestamp = ''00:05'', seg_text = ''Hola''\<rparr>]
      '' mundo'')) = ''Hola mundo'' \<and>
   take 1 (handleLiveUpdate ''00:07''
      [\<lparr>speaker = ''Hablante 1'', gender = Femenino, timestamp = ''00:01'', seg_text = ''Buenas''\<rparr>]
      '' mundo'')
     = [\<lparr>speaker = ''Hablante 1'', gender = Femenino, timestamp = ''00:01'', seg_text = ''Buenas''\<rparr>]"
  using handleLiveUpdate_frame [of
      "[\<lparr>speaker = ''Hablante 1'', gender = Femenino, timestamp = ''00:01'', seg_text = ''Buenas''\<rparr>,
        \<lparr>speaker = ''En Vivo'', gender = Desconocido, timestamp = ''00:05'', seg_text = ''Hola''\<rparr>]"
      "''00:07''" "'' mundo''"]
    handleLiveUpdate_frame [of
      "[\<lparr>speaker = ''Hablante 1'', gender = Femenino, timestamp = ''00:01'', seg_text = ''Buenas''\<rparr>]"
      "''00:07''" "'' mundo''"]
  by simp

section \<open>CSV export (App.tsx)\<close>

text \<open>A template literal prints a gender as its name.\<close>

fun Gender_string :: "Gender \<Rightarrow> string" where
  "Gender_string Masculino = ''Masculino''"
| "Gender_string Femenino = ''Femenino''"
| "Gender_string Desconocido = ''Desconocido''"

text \<open>
  \<^verbatim>\<open>s.replace(/p/g, r)\<close> for a pattern of one literal character: every occurrence, from
  left to right, is replaced. The double quote is \<open>CHR 0x22\<close> and the line feed
  \<open>CHR 0x0A\<close>; the letter e with acute accent of the header is the two bytes
  \<open>C3 A9\<close>.
\<close>

fun replace_all :: "char \<Rightarrow> string \<Rightarrow> string \<Rightarrow> string" where
  "replace_all p r [] = []"
| "replace_all p r (c # cs) = (if c = p then r else [c]) @ replace_all p r cs"

definition csv_header :: string where
  "csv_header = ''Hablante,G'' @ [CHR 0xC3, CHR 0xA9] @ ''nero,Tiempo,Texto'' @ [CHR 0x0A]"

definition safeText :: "TranscriptSegment \<Rightarrow> string" where
  "safeText t =
     [CHR 0x22] @ replace_all (CHR 0x22) [CHR 0x22, CHR 0x22] (seg_text t) @ [CHR 0x22]"

text \<open>The body of \<^verbatim>\<open>transcripts.forEach\<close>, which extends \<^verbatim>\<open>content\<close>.\<close>

definition forEach_body :: "string \<Rightarrow> TranscriptSegment \<Rightarrow> string" where
  "forEach_body content t =
     content @ (speaker t @ '','' @ Gender_string (gender t) @ '','' @ timestamp t @ '',''
                @ safeText t @ [CHR 0x0A])"

text \<open>
  \<open>handleExport\<close> returns the text it puts into the downloaded file, or \<open>None\<close> when it
  returns early and downloads nothing.
\<close>

definition handleExport :: "TranscriptSegment list \<Rightarrow> string option" where
  "handleExport transcripts =
     (if length transcripts = 0 then None
      else Some (foldl forEach_body csv_header transcripts))"

text \<open>
  The row the specification describes for one segment: the four fields separated by
  commas, the text between double quotes with each of its double quotes written twice.
\<close>

definition doubled_quotes :: "string \<Rightarrow> string" where
  "doubled_quotes s = concat (map (\<lambda>c. if c = CHR 0x22 then [CHR 0x22, CHR 0x22] else [c]) s)"

definition csv_row :: "TranscriptSegment \<Rightarrow> string" where
  "csv_row t = speaker t @ '','' @ Gender_string (gender t) @ '','' @ timestamp t @ '',''
               @ [CHR 0x22] @ doubled_quotes (seg_text t) @ [CHR 0x22] @ [CHR 0x0A]"

subsection \<open>Properties of the export\<close>

lemma replace_all_doubled: "replace_all (CHR 0x22) [CHR 0x22, CHR 0x22] s = doubled_quotes s"
  by (induction s) (simp_all add: doubled_quotes_def)

lemma foldl_forEach_body:
  "foldl forEach_body content ts = content @ concat (map csv_row ts)"
  by (induction ts arbitrary: content)
     (simp_all add: forEach_body_def csv_row_def safeText_def replace_all_doubled)

text \<open>
  Claim C8. For a non-empty segment list the export is the header line
  \<open>Hablante,Genero,Tiempo,Texto\<close> (with the accented e) followed by one row per segment,
  in list order, whose text field is wrapped in double quotes with every inner double
  quote doubled.
\<close>

theorem handleExport_csv:
  "transcripts \<noteq> [] \<Longrightarrow>
   handleExport transcripts
     = Some (''Hablante,G'' @ [CHR 0xC3, CHR 0xA9] @ ''nero,Tiempo,Texto'' @ [CHR 0x0A]
             @ concat (map csv_row transcripts))"
  by (simp add: handleExport_def foldl_forEach_body csv_header_def)

theorem handleExport_csv_witness:
  "[\<lparr>speaker = ''Ana'', gender = Femenino, timestamp = ''00:01'',
      seg_text = ''a'' @ [CHR 0x22] @ ''b''\<rparr>] \<noteq> [] \<and>
   handleExport [\<lparr>speaker = ''Ana'', gender = Femenino, timestamp = ''00:01'',
                   seg_text = ''a'' @ [CHR 0x22] @ ''b''\<rparr>]
     = Some (''Hablante,G'' @ [CHR 0xC3, CHR 0xA9] @ ''nero,Tiempo,Texto'' @ [CHR 0x0A]
             @ ''Ana,Femenino,00:01,'' @ [CHR 0x22] @ ''a'' @ [CHR 0x22, CHR 0x22] @ ''b''
             @ [CHR 0x22, CHR 0x0A])"
  using handleExport_csv [of "[\<lparr>speaker = ''Ana'', gender = Femenino, timestamp = ''00:01'',
                                 seg_text = ''a'' @ [CHR 0x22] @ ''b''\<rparr>]"]
  by (simp add: csv_row_def doubled_quotes_def)

section \<open>Batch transcription (services/geminiService.ts)\<close>

text \<open>
  \<^verbatim>\<open>JSON.parse\<close> returns any JSON value, and the cast to \<^verbatim>\<open>TranscriptSegment[]\<close>
  checks nothing, so the result of \<open>transcribeAudioFile\<close> is a JSON value; the empty
  transcript is \<open>JArray []\<close>.
\<close>

datatype json =
    JNull | JBool bool | JNumber real | JString string
  | JArray "json list" | JObject "(string \<times> json) list"

datatype Error = ApiKeyMissing | ServiceFailure string | SyntaxError string

text \<open>
  The function reads three things from its environment: the API key, what
  \<^verbatim>\<open>ai.models.generateContent\<close> does (it throws, or it returns a response whose
  \<^verbatim>\<open>text\<close> is a string or \<^verbatim>\<open>undefined\<close>), and what \<^verbatim>\<open>JSON.parse\<close> does with that
  text (it throws a \<^verbatim>\<open>SyntaxError\<close> or returns a value). They are the arguments
  \<open>apiKey\<close>, \<open>response\<close> and \<open>parsed\<close>; \<open>Inl\<close> is a thrown error. The \<^verbatim>\<open>catch\<close> block
  logs the error and throws it again.
\<close>

definition transcribeAudioFile ::
  "string \<Rightarrow> Error + string option \<Rightarrow> Error + json \<Rightarrow> Error + json" where
  "transcribeAudioFile apiKey response parsed =
     (if apiKey = [] then Inl ApiKeyMissing
      else case response of
             Inl e \<Rightarrow> Inl e
           | Inr jsonText \<Rightarrow>
               (if jsonText = None \<or> jsonText = Some [] then Inr (JArray [])
                else case parsed of
                       Inl e \<Rightarrow> Inl e
                     | Inr v \<Rightarrow> Inr v))"

subsection \<open>Properties of the batch transcription\<close>

text \<open>
  Claim C6 says that an empty or unparseable payload yields the empty transcript and not
  an error. It fails for an unparseable payload: on the text \<open>{\<close>, which \<^verbatim>\<open>JSON.parse\<close>
  rejects, the function ends with the error.
\<close>

theorem transcribeAudioFile_malformed_counterexample:
  "transcribeAudioFile ''key'' (Inr (Some ''{''))
      (Inl (SyntaxError ''Unexpected end of JSON input''))
     = Inl (SyntaxError ''Unexpected end of JSON input'') \<and>
   transcribeAudioFile ''key'' (Inr (Some ''{''))
      (Inl (SyntaxError ''Unexpected end of JSON input''))
     \<noteq> Inr (JArray [])"
  by (simp add: transcribeAudioFile_def)

text \<open>
  Claim C6, amended. With an API key, a response without text or with the empty text
  yields the empty transcript, and a non-empty payload that \<^verbatim>\<open>JSON.parse\<close> rejects
  yields that parse error.
\<close>

theorem transcribeAudioFile_empty_or_malformed:
  "apiKey \<noteq> [] \<Longrightarrow>
   transcribeAudioFile apiKey (Inr None) parsed = Inr (JArray []) \<and>
   transcribeAudioFile apiKey (Inr (Some [])) parsed = Inr (JArray []) \<and>
   (payload \<noteq> [] \<longrightarrow>
      transcribeAudioFile apiKey (Inr (Some payload)) (Inl e) = Inl e)"
  by (simp add: transcribeAudioFile_def)

theorem transcribeAudioFile_empty_or_malformed_witness:
  "transcribeAudioFile ''key'' (Inr None) (Inl (SyntaxError ''x'')) = Inr (JArray []) \<and>
   transcribeAudioFile ''key'' (Inr (Some [])) (Inl (SyntaxError ''x'')) = Inr (JArray []) \<and>
   transcribeAudioFile ''key'' (Inr (Some ''not json'')) (Inl (SyntaxError ''x''))
     = Inl (SyntaxError ''x'')"
  using transcribeAudioFile_empty_or_malformed
          [of "''key''" "Inl (SyntaxError ''x'')" "''not json''" "SyntaxError ''x''"]
  by simp

section \<open>Live session (components/LiveSession.tsx)\<close>

text \<open>
  The component is followed while it is mounted. JavaScript runs one callback at a time,
  so a run is the list of the events whose callbacks ran, in order, and the state after a
  run is the fold of the callbacks over it.

  Every call of \<^verbatim>\<open>startSession\<close> (an invocation; they are numbered from 0 in the order
  of the calls) creates its own stream, context, source, analyser, processor and session
  promise, which the callbacks it installs keep in their closure. The refs are shared by
  all invocations and hold the objects of the invocation that set them last. An object is
  named by its kind and the number of its invocation; \<open>Session i\<close> is the session the
  promise of invocation \<open>i\<close> resolves to.
\<close>

datatype Resource = Processor nat | Source nat | MediaStream nat | AudioContext nat | Session nat

text \<open>
  The calls the component makes on them, in the order it makes them:
  \<^verbatim>\<open>node.disconnect()\<close>, \<^verbatim>\<open>track.stop()\<close> on the tracks of a stream, \<^verbatim>\<open>close()\<close> on an
  audio context or on a session, \<^verbatim>\<open>cancelAnimationFrame(id)\<close>,
  \<^verbatim>\<open>session.sendRealtimeInput({media: {mimeType, data}})\<close> on the session of the given
  invocation, and \<^verbatim>\<open>console.error\<close>.
\<close>

datatype Effect =
    Disconnect Resource
  | StopTracks Resource
  | Close Resource
  | CancelAnimationFrame nat
  | SendRealtimeInput nat string string
  | ConsoleError string

text \<open>
  What the environment holds for one invocation: how far \<^verbatim>\<open>startSession\<close> has come, the
  promise \<^verbatim>\<open>connectLiveSession\<close> returned (none before the call), the payloads of the
  \<^verbatim>\<open>then\<close> callbacks registered on it while it is pending, oldest first, the connection
  behind it (the states of \<open>SessionHandle\<close> in the specification), and whether its
  processor is connected in an open context, which is when its \<^verbatim>\<open>audioprocess\<close> events
  are dispatched.
\<close>

datatype PromiseState = Pending | Fulfilled | Rejected

datatype SessionState = Connecting | Open | Closed | Failed

datatype Phase = AwaitingMicrophone | SetUp | StartFailed

record Invocation =
  phase :: Phase
  sessionPromise :: "PromiseState option"
  reactions :: "string list"
  sessionState :: "SessionState option"
  audioRunning :: bool

text \<open>
  The first eight fields are the component's own: its two state variables and its refs
  (\<open>None\<close> is \<^verbatim>\<open>null\<close> or \<^verbatim>\<open>undefined\<close>; a ref holds the number of the invocation whose
  object it points to). The others belong to the environment: the invocations so far, the
  ids of the animation frame callbacks that are scheduled, the next fresh id, and the log
  of calls. The refs of the canvas and of the analyser are left out: \<^verbatim>\<open>stopSession\<close> does
  not touch them.
\<close>

record LiveSession =
  isActive :: bool
  error :: "string option"
  audioContextRef :: "nat option"
  mediaStreamRef :: "nat option"
  processorRef :: "nat option"
  sourceRef :: "nat option"
  sessionRef :: "nat option"
  animationFrameRef :: "nat option"
  invocations :: "Invocation list"
  frameRequests :: "nat list"
  nextFrameId :: nat
  effects :: "Effect list"

text \<open>The component as mounted.\<close>

definition mounted :: LiveSession where
  "mounted = \<lparr>isActive = False, error = None, audioContextRef = None, mediaStreamRef = None,
     processorRef = None, sourceRef = None, sessionRef = None, animationFrameRef = None,
     invocations = [], frameRequests = [], nextFrameId = 1, effects = []\<rparr>"

text \<open>Reading and updating the invocation of a given number, if there is one.\<close>

definition invocation :: "LiveSession \<Rightarrow> nat \<Rightarrow> Invocation option" where
  "invocation s i = (if i < length (invocations s) then Some (invocations s ! i) else None)"

definition phaseOf :: "LiveSession \<Rightarrow> nat \<Rightarrow> Phase option" where
  "phaseOf s i = map_option phase (invocation s i)"

definition promiseOf :: "LiveSession \<Rightarrow> nat \<Rightarrow> PromiseState option" where
  "promiseOf s i = (case invocation s i of Some v \<Rightarrow> sessionPromise v | None \<Rightarrow> None)"

definition sessionStateOf :: "LiveSession \<Rightarrow> nat \<Rightarrow> SessionState option" where
  "sessionStateOf s i = (case invocation s i of Some v \<Rightarrow> sessionState v | None \<Rightarrow> None)"

definition reactionsOf :: "LiveSession \<Rightarrow> nat \<Rightarrow> string list" where
  "reactionsOf s i = (case invocation s i of Some v \<Rightarrow> reactions v | None \<Rightarrow> [])"

definition runningOf :: "LiveSession \<Rightarrow> nat \<Rightarrow> bool" where
  "runningOf s i = (case invocation s i of Some v \<Rightarrow> audioRunning v | None \<Rightarrow> False)"

definition update_invocation ::
  "nat \<Rightarrow> (Invocation \<Rightarrow> Invocation) \<Rightarrow> LiveSession \<Rightarrow> LiveSession" where
  "update_invocation i f s =
     (if i < length (invocations s)
      then s\<lparr>invocations := (invocations s)[i := f (invocations s ! i)]\<rparr>
      else s)"

text \<open>
  \<^verbatim>\<open>stopSession\<close>: \<^verbatim>\<open>setIsActive(false)\<close>, then one guarded block per ref, in the order
  of the source. Each of the first four blocks releases what its ref holds and sets the
  ref to \<^verbatim>\<open>null\<close>. The block of the session ref only sets it to \<^verbatim>\<open>null\<close>, under the
  comment \<^verbatim>\<open>Currently we just stop sending data\<close>. The last block cancels the animation
  frame whose id its ref holds and leaves the ref as it is. Disconnecting a processor or
  closing its context ends the dispatch of its \<^verbatim>\<open>audioprocess\<close> events.
\<close>

definition stop_processor :: "LiveSession \<Rightarrow> LiveSession" where
  "stop_processor s =
     (case processorRef s of
        Some i \<Rightarrow> (update_invocation i (\<lambda>v. v\<lparr>audioRunning := False\<rparr>) s)
                    \<lparr>effects := effects s @ [Disconnect (Processor i)], processorRef := None\<rparr>
      | None \<Rightarrow> s)"

definition stop_source :: "LiveSession \<Rightarrow> LiveSession" where
  "stop_source s =
     (case sourceRef s of
        Some i \<Rightarrow> s\<lparr>effects := effects s @ [Disconnect (Source i)], sourceRef := None\<rparr>
      | None \<Rightarrow> s)"

definition stop_mediaStream :: "LiveSession \<Rightarrow> LiveSession" where
  "stop_mediaStream s =
     (case mediaStreamRef s of
        Some i \<Rightarrow> s\<lparr>effects := effects s @ [StopTracks (MediaStream i)], mediaStreamRef := None\<rparr>
      | None \<Rightarrow> s)"

definition stop_audioContext :: "LiveSession \<Rightarrow> LiveSession" where
  "stop_audioContext s =
     (case audioContextRef s of
        Some i \<Rightarrow> (update_invocation i (\<lambda>v. v\<lparr>audioRunning := False\<rparr>) s)
                    \<lparr>effects := effects s @ [Close (AudioContext i)], audioContextRef := None\<rparr>
      | None \<Rightarrow> s)"

definition stop_session :: "LiveSession \<Rightarrow> LiveSession" where
  "stop_session s =
     (case sessionRef s of
        Some i \<Rightarrow> s\<lparr>sessionRef := None\<rparr>
      | None \<Rightarrow> s)"

definition stop_animationFrame :: "LiveSession \<Rightarrow> LiveSession" where
  "stop_animationFrame s =
     (case animationFrameRef s of
        Some n \<Rightarrow>
          if n \<noteq> 0
          then s\<lparr>effects := effects s @ [CancelAnimationFrame n],
                 frameRequests := removeAll n (frameRequests s)\<rparr>
          else s
      | None \<Rightarrow> s)"

definition stopSession :: "LiveSession \<Rightarrow> LiveSession" where
  "stopSession s =
     stop_animationFrame (stop_session (stop_audioContext (stop_mediaStream
       (stop_source (stop_processor (s\<lparr>isActive := False\<rparr>))))))"

text \<open>
  \<^verbatim>\<open>draw\<close> stores the id that \<^verbatim>\<open>requestAnimationFrame(draw)\<close> returns (ids are positive
  and fresh) and paints; \<^verbatim>\<open>drawVisualizer\<close> calls it once, the canvas and the analyser
  being there.
\<close>

definition draw :: "LiveSession \<Rightarrow> LiveSession" where
  "draw s = s\<lparr>animationFrameRef := Some (nextFrameId s),
               frameRequests := frameRequests s @ [nextFrameId s],
               nextFrameId := Suc (nextFrameId s)\<rparr>"

text \<open>
  \<^verbatim>\<open>processor.onaudioprocess\<close> of invocation \<open>i\<close> encodes the frame and calls
  \<^verbatim>\<open>sessionPromise.then(session => {...}).catch(e => console.error(...))\<close> on the promise
  of its closure. On a fulfilled promise the \<^verbatim>\<open>then\<close> callback runs before any other
  event; on a rejected one the \<^verbatim>\<open>catch\<close> callback does; on a pending one the reaction
  waits for the promise to settle.
\<close>

definition thenCallback :: "nat \<Rightarrow> string \<Rightarrow> LiveSession \<Rightarrow> LiveSession" where
  "thenCallback i data s =
     s\<lparr>sessionRef := Some i,
       effects := effects s @ [SendRealtimeInput i ''audio/pcm;rate=16000'' data]\<rparr>"

definition catchCallback :: "string \<Rightarrow> LiveSession \<Rightarrow> LiveSession" where
  "catchCallback data s = s\<lparr>effects := effects s @ [ConsoleError ''Session not ready'']\<rparr>"

definition onaudioprocess :: "nat \<Rightarrow> jsnum list \<Rightarrow> LiveSession \<Rightarrow> LiveSession" where
  "onaudioprocess i inputData s =
     (let data = base64Data inputData
      in case promiseOf s i of
           Some Pending \<Rightarrow> update_invocation i (\<lambda>v. v\<lparr>reactions := reactions v @ [data]\<rparr>) s
         | Some Fulfilled \<Rightarrow> thenCallback i data s
         | Some Rejected \<Rightarrow> catchCallback data s
         | None \<Rightarrow> s)"

text \<open>
  \<^verbatim>\<open>startSession\<close> in its three parts: up to the \<^verbatim>\<open>await\<close> of \<^verbatim>\<open>getUserMedia\<close>, the
  rest of the \<^verbatim>\<open>try\<close> block once the microphone is granted, and the \<^verbatim>\<open>catch\<close> block
  when it is refused.
\<close>

definition startSession_begin :: "LiveSession \<Rightarrow> LiveSession" where
  "startSession_begin s =
     s\<lparr>error := None,
       invocations := invocations s @
         [\<lparr>phase = AwaitingMicrophone, sessionPromise = None, reactions = [],
           sessionState = None, audioRunning = False\<rparr>]\<rparr>"

definition startSession_granted :: "nat \<Rightarrow> LiveSession \<Rightarrow> LiveSession" where
  "startSession_granted i s =
     draw ((update_invocation i
              (\<lambda>v. v\<lparr>phase := SetUp, sessionPromise := Some Pending,
                     sessionState := Some Connecting, audioRunning := True\<rparr>) s)
           \<lparr>mediaStreamRef := Some i, audioContextRef := Some i, sourceRef := Some i,
             processorRef := Some i\<rparr>)"

definition startSession_denied :: "nat \<Rightarrow> LiveSession \<Rightarrow> LiveSession" where
  "startSession_denied i s =
     (update_invocation i (\<lambda>v. v\<lparr>phase := StartFailed\<rparr>) s)
       \<lparr>effects := effects s @ [ConsoleError ''getUserMedia''],
         error := Some (''No se pudo acceder al micr'' @ [CHR 0xC3, CHR 0xB3]
                        @ ''fono o conectar.'')\<rparr>"

text \<open>The callbacks handed to \<^verbatim>\<open>connectLiveSession\<close>.\<close>

definition onOpen :: "LiveSession \<Rightarrow> LiveSession" where
  "onOpen s = s\<lparr>isActive := True\<rparr>"

definition onClose :: "LiveSession \<Rightarrow> LiveSession" where
  "onClose s = s\<lparr>isActive := False\<rparr>"

definition onError :: "LiveSession \<Rightarrow> LiveSession" where
  "onError s =
     stopSession (s\<lparr>effects := effects s @ [ConsoleError ''Live API Error:''],
                    error := Some (''Error de conexi'' @ [CHR 0xC3, CHR 0xB3]
                                   @ ''n con la API en vivo.'')\<rparr>)"

text \<open>
  The events, and which callback each runs. An event that cannot occur in the current
  state changes nothing. The button calls \<^verbatim>\<open>startSession\<close> whenever \<^verbatim>\<open>isActive\<close> is
  false, also after a stop and also while an earlier invocation is still starting; each
  such click begins a new invocation. For invocation \<open>i\<close>: the microphone is granted or
  refused while its \<^verbatim>\<open>getUserMedia\<close> is awaited; \<^verbatim>\<open>audioprocess\<close> is dispatched while
  its graph runs; the service client opens the socket (and calls \<^verbatim>\<open>onopen\<close>) before the
  promise of \<^verbatim>\<open>connectLiveSession\<close> resolves, and the promise rejects only when the
  socket never opened; the service closes an open session (\<^verbatim>\<open>onclose\<close>); a transport
  error (\<^verbatim>\<open>onerror\<close>) comes on a session that is connecting or open. \<^verbatim>\<open>stopSession\<close>
  can be called at any time (the button while \<^verbatim>\<open>isActive\<close>, the error callback, the
  unmounting). An animation frame fires when it is scheduled. A settling promise runs its
  reactions in the order of their registration.
\<close>

datatype Event =
    ClickStart
  | MicrophoneGranted nat
  | MicrophoneDenied nat
  | AudioProcess nat "jsnum list"
  | SessionOpened nat
  | SessionResolved nat
  | SessionRejected nat
  | SessionClosed nat
  | SessionError nat
  | Stop
  | AnimationFrame nat

fun step :: "LiveSession \<Rightarrow> Event \<Rightarrow> LiveSession" where
  "step s ClickStart = (if \<not> isActive s then startSession_begin s else s)"
| "step s (MicrophoneGranted i) =
     (if phaseOf s i = Some AwaitingMicrophone then startSession_granted i s else s)"
| "step s (MicrophoneDenied i) =
     (if phaseOf s i = Some AwaitingMicrophone then startSession_denied i s else s)"
| "step s (AudioProcess i inputData) =
     (if runningOf s i then onaudioprocess i inputData s else s)"
| "step s (SessionOpened i) =
     (if sessionStateOf s i = Some Connecting
      then onOpen (update_invocation i (\<lambda>v. v\<lparr>sessionState := Some Open\<rparr>) s)
      else s)"
| "step s (SessionResolved i) =
     (if promiseOf s i = Some Pending \<and> sessionStateOf s i \<in> {Some Open, Some Closed}
      then fold (thenCallback i) (reactionsOf s i)
             (update_invocation i
                (\<lambda>v. v\<lparr>sessionPromise := Some Fulfilled, reactions := []\<rparr>) s)
      else s)"
| "step s (SessionRejected i) =
     (if promiseOf s i = Some Pending \<and> sessionStateOf s i = Some Connecting
      then fold catchCallback (reactionsOf s i)
             (update_invocation i
                (\<lambda>v. v\<lparr>sessionPromise := Some Rejected, sessionState := Some Failed,
                       reactions := []\<rparr>) s)
      else s)"
| "step s (SessionClosed i) =
     (if sessionStateOf s i = Some Open
      then onClose (update_invocation i (\<lambda>v. v\<lparr>sessionState := Some Closed\<rparr>) s)
      else s)"
| "step s (SessionError i) =
     (if sessionStateOf s i \<in> {Some Connecting, Some Open} then onError s else s)"
| "step s Stop = stopSession s"
| "step s (AnimationFrame n) =
     (if n \<in> set (frameRequests s)
      then draw (s\<lparr>frameRequests := removeAll n (frameRequests s)\<rparr>)
      else s)"

definition run :: "Event list \<Rightarrow> LiveSession" where
  "run evs = foldl step mounted evs"

text \<open>The payloads handed to \<^verbatim>\<open>sendRealtimeInput\<close> of the session of invocation \<open>i\<close>, in order.\<close>

fun sentFrames :: "nat \<Rightarrow> Effect list \<Rightarrow> string list" where
  "sentFrames i [] = []"
| "sentFrames i (SendRealtimeInput j mimeType data # es) =
     (if j = i then data # sentFrames i es else sentFrames i es)"
| "sentFrames i (e # es) = sentFrames i es"

text \<open>
  The payloads of the frames the processor of invocation \<open>i\<close> captured during a run that
  starts in state \<open>s\<close>, in capture order.
\<close>

fun capturedFrames :: "LiveSession \<Rightarrow> nat \<Rightarrow> Event list \<Rightarrow> string list" where
  "capturedFrames s i [] = []"
| "capturedFrames s i (AudioProcess j inputData # evs) =
     (if j = i \<and> runningOf s i then [base64Data inputData] else [])
     @ capturedFrames (step s (AudioProcess j inputData)) i evs"
| "capturedFrames s i (e # evs) = capturedFrames (step s e) i evs"

text \<open>What one call of \<^verbatim>\<open>stopSession\<close> adds to the log.\<close>

definition releases :: "LiveSession \<Rightarrow> Effect list" where
  "releases s =
     (case processorRef s of Some i \<Rightarrow> [Disconnect (Processor i)] | None \<Rightarrow> [])
     @ (case sourceRef s of Some i \<Rightarrow> [Disconnect (Source i)] | None \<Rightarrow> [])
     @ (case mediaStreamRef s of Some i \<Rightarrow> [StopTracks (MediaStream i)] | None \<Rightarrow> [])
     @ (case audioContextRef s of Some i \<Rightarrow> [Close (AudioContext i)] | None \<Rightarrow> [])
     @ (case animationFrameRef s of
          Some n \<Rightarrow> if n \<noteq> 0 then [CancelAnimationFrame n] else []
        | None \<Rightarrow> [])"

text \<open>
  Every captured frame of an invocation is accounted for: before its promise exists
  nothing was captured; while the promise is pending the captured frames are the waiting
  reactions, in order, and none was sent; once it is fulfilled they are the frames sent,
  in order, and none waits; once it is rejected none was sent and none waits.
\<close>

definition frames_accounted :: "LiveSession \<Rightarrow> nat \<Rightarrow> string list \<Rightarrow> bool" where
  "frames_accounted s i captured =
     (case promiseOf s i of
        None \<Rightarrow> sentFrames i (effects s) = [] \<and> reactionsOf s i = [] \<and> captured = []
      | Some Pending \<Rightarrow> sentFrames i (effects s) = [] \<and> reactionsOf s i = captured
      | Some Fulfilled \<Rightarrow> sentFrames i (effects s) = captured \<and> reactionsOf s i = []
      | Some Rejected \<Rightarrow> sentFrames i (effects s) = [] \<and> reactionsOf s i = [])"


subsection \<open>Properties of the live session\<close>

lemma invocation_fields [simp]:
  "invocation (s\<lparr>isActive := a\<rparr>) i = invocation s i"
  "invocation (s\<lparr>error := b\<rparr>) i = invocation s i"
  "invocation (s\<lparr>audioContextRef := r1\<rparr>) i = invocation s i"
  "invocation (s\<lparr>mediaStreamRef := r2\<rparr>) i = invocation s i"
  "invocation (s\<lparr>processorRef := r3\<rparr>) i = invocation s i"
  "invocation (s\<lparr>sourceRef := r4\<rparr>) i = invocation s i"
  "invocation (s\<lparr>sessionRef := r5\<rparr>) i = invocation s i"
  "invocation (s\<lparr>animationFrameRef := r6\<rparr>) i = invocation s i"
  "invocation (s\<lparr>frameRequests := q\<rparr>) i = invocation s i"
  "invocation (s\<lparr>nextFrameId := n\<rparr>) i = invocation s i"
  "invocation (s\<lparr>effects := es\<rparr>) i = invocation s i"
  by (simp_all add: invocation_def)

lemma invocation_update [simp]:
  "invocation (update_invocation j f s) i
     = (if i = j then map_option f (invocation s j) else invocation s i)"
  by (simp add: invocation_def update_invocation_def)

lemma update_invocation_fields [simp]:
  "isActive (update_invocation j f s) = isActive s"
  "error (update_invocation j f s) = error s"
  "audioContextRef (update_invocation j f s) = audioContextRef s"
  "mediaStreamRef (update_invocation j f s) = mediaStreamRef s"
  "processorRef (update_invocation j f s) = processorRef s"
  "sourceRef (update_invocation j f s) = sourceRef s"
  "sessionRef (update_invocation j f s) = sessionRef s"
  "animationFrameRef (update_invocation j f s) = animationFrameRef s"
  "frameRequests (update_invocation j f s) = frameRequests s"
  "nextFrameId (update_invocation j f s) = nextFrameId s"
  "effects (update_invocation j f s) = effects s"
  by (simp_all add: update_invocation_def)

lemma invocation_begin:
  "invocation (startSession_begin s) i
     = (if i = length (invocations s)
        then Some \<lparr>phase = AwaitingMicrophone, sessionPromise = None, reactions = [],
                   sessionState = None, audioRunning = False\<rparr>
        else invocation s i)"
  by (simp add: invocation_def startSession_begin_def nth_append)

lemma invocation_beyond: "length (invocations s) \<le> i \<Longrightarrow> invocation s i = None"
  by (simp add: invocation_def)

lemma invocation_draw [simp]: "invocation (draw s) i = invocation s i"
  by (simp add: draw_def)

lemma invocation_thenCallback [simp]: "invocation (thenCallback j d s) i = invocation s i"
  by (simp add: thenCallback_def)

lemma invocation_catchCallback [simp]: "invocation (catchCallback d s) i = invocation s i"
  by (simp add: catchCallback_def)

lemma invocation_fold_then [simp]: "invocation (fold (thenCallback j) ds s) i = invocation s i"
  by (induction ds arbitrary: s) simp_all

lemma invocation_fold_catch [simp]: "invocation (fold catchCallback ds s) i = invocation s i"
  by (induction ds arbitrary: s) simp_all

lemma effects_fold_then:
  "effects (fold (thenCallback j) ds s)
     = effects s @ map (SendRealtimeInput j ''audio/pcm;rate=16000'') ds"
  by (induction ds arbitrary: s) (simp_all add: thenCallback_def)

lemma effects_fold_catch:
  "effects (fold catchCallback ds s)
     = effects s @ replicate (length ds) (ConsoleError ''Session not ready'')"
  by (induction ds arbitrary: s) (simp_all add: catchCallback_def replicate_app_Cons_same)

lemma stop_processor_fields:
  "effects (stop_processor s)
     = effects s @ (case processorRef s of Some i \<Rightarrow> [Disconnect (Processor i)] | None \<Rightarrow> [])"
  "invocation (stop_processor s) i
     = (if processorRef s = Some i then map_option (\<lambda>v. v\<lparr>audioRunning := False\<rparr>) (invocation s i)
        else invocation s i)"
  "processorRef (stop_processor s) = None"
  "sourceRef (stop_processor s) = sourceRef s"
  "mediaStreamRef (stop_processor s) = mediaStreamRef s"
  "audioContextRef (stop_processor s) = audioContextRef s"
  "sessionRef (stop_processor s) = sessionRef s"
  "animationFrameRef (stop_processor s) = animationFrameRef s"
  "isActive (stop_processor s) = isActive s"
  "error (stop_processor s) = error s"
  "frameRequests (stop_processor s) = frameRequests s"
  "nextFrameId (stop_processor s) = nextFrameId s"
  by (cases "processorRef s"; simp add: stop_processor_def)+

lemma stop_source_fields:
  "effects (stop_source s)
     = effects s @ (case sourceRef s of Some i \<Rightarrow> [Disconnect (Source i)] | None \<Rightarrow> [])"
  "invocation (stop_source s) i = invocation s i"
  "processorRef (stop_source s) = processorRef s"
  "sourceRef (stop_source s) = None"
  "mediaStreamRef (stop_source s) = mediaStreamRef s"
  "audioContextRef (stop_source s) = audioContextRef s"
  "sessionRef (stop_source s) = sessionRef s"
  "animationFrameRef (stop_source s) = animationFrameRef s"
  "isActive (stop_source s) = isActive s"
  "error (stop_source s) = error s"
  "frameRequests (stop_source s) = frameRequests s"
  "nextFrameId (stop_source s) = nextFrameId s"
  by (cases "sourceRef s"; simp add: stop_source_def)+

lemma stop_mediaStream_fields:
  "effects (stop_mediaStream s)
     = effects s @ (case mediaStreamRef s of Some i \<Rightarrow> [StopTracks (MediaStream i)] | None \<Rightarrow> [])"
  "invocation (stop_mediaStream s) i = invocation s i"
  "processorRef (stop_mediaStream s) = processorRef s"
  "sourceRef (stop_mediaStream s) = sourceRef s"
  "mediaStreamRef (stop_mediaStream s) = None"
  "audioContextRef (stop_mediaStream s) = audioContextRef s"
  "sessionRef (stop_mediaStream s) = sessionRef s"
  "animationFrameRef (stop_mediaStream s) = animationFrameRef s"
  "isActive (stop_mediaStream s) = isActive s"
  "error (stop_mediaStream s) = error s"
  "frameRequests (stop_mediaStream s) = frameRequests s"
  "nextFrameId (stop_mediaStream s) = nextFrameId s"
  by (cases "mediaStreamRef s"; simp add: stop_mediaStream_def)+

lemma stop_audioContext_fields:
  "effects (stop_audioContext s)
     = effects s @ (case audioContextRef s of Some i \<Rightarrow> [Close (AudioContext i)] | None \<Rightarrow> [])"
  "invocation (stop_audioContext s) i
     = (if audioContextRef s = Some i then map_option (\<lambda>v. v\<lparr>audioRunning := False\<rparr>) (invocation s i)
        else invocation s i)"
  "processorRef (stop_audioContext s) = processorRef s"
  "sourceRef (stop_audioContext s) = sourceRef s"
  "mediaStreamRef (stop_audioContext s) = mediaStreamRef s"
  "audioContextRef (stop_audioContext s) = None"
  "sessionRef (stop_audioContext s) = sessionRef s"
  "animationFrameRef (stop_audioContext s) = animationFrameRef s"
  "isActive (stop_audioContext s) = isActive s"
  "error (stop_audioContext s) = error s"
  "frameRequests (stop_audioContext s) = frameRequests s"
  "nextFrameId (stop_audioContext s) = nextFrameId s"
  by (cases "audioContextRef s"; simp add: stop_audioContext_def)+

lemma stop_session_fields:
  "effects (stop_session s) = effects s"
  "invocation (stop_session s) i = invocation s i"
  "processorRef (stop_session s) = processorRef s"
  "sourceRef (stop_session s) = sourceRef s"
  "mediaStreamRef (stop_session s) = mediaStreamRef s"
  "audioContextRef (stop_session s) = audioContextRef s"
  "sessionRef (stop_session s) = None"
  "animationFrameRef (stop_session s) = animationFrameRef s"
  "isActive (stop_session s) = isActive s"
  "error (stop_session s) = error s"
  "frameRequests (stop_session s) = frameRequests s"
  "nextFrameId (stop_session s) = nextFrameId s"
  by (cases "sessionRef s"; simp add: stop_session_def)+

lemma stop_animationFrame_fields:
  "effects (stop_animationFrame s)
     = effects s @ (case animationFrameRef s of
                      Some n \<Rightarrow> if n \<noteq> 0 then [CancelAnimationFrame n] else []
                    | None \<Rightarrow> [])"
  "invocation (stop_animationFrame s) i = invocation s i"
  "processorRef (stop_animationFrame s) = processorRef s"
  "sourceRef (stop_animationFrame s) = sourceRef s"
  "mediaStreamRef (stop_animationFrame s) = mediaStreamRef s"
  "audioContextRef (stop_animationFrame s) = audioContextRef s"
  "sessionRef (stop_animationFrame s) = sessionRef s"
  "animationFrameRef (stop_animationFrame s) = animationFrameRef s"
  "isActive (stop_animationFrame s) = isActive s"
  "error (stop_animationFrame s) = error s"
  "frameRequests (stop_animationFrame s)
     = (case animationFrameRef s of
          Some n \<Rightarrow> if n \<noteq> 0 then removeAll n (frameRequests s) else frameRequests s
        | None \<Rightarrow> frameRequests s)"
  "nextFrameId (stop_animationFrame s) = nextFrameId s"
  by (cases "animationFrameRef s"; simp add: stop_animationFrame_def)+

lemmas stop_fields = stop_processor_fields stop_source_fields stop_mediaStream_fields
  stop_audioContext_fields stop_session_fields stop_animationFrame_fields

lemma stopSession_effects: "effects (stopSession s) = effects s @ releases s"
  by (simp add: stopSession_def stop_fields releases_def)

lemma stopSession_invocation:
  "invocation (stopSession s) i
     = (if processorRef s = Some i \<or> audioContextRef s = Some i
        then map_option (\<lambda>v. v\<lparr>audioRunning := False\<rparr>) (invocation s i)
        else invocation s i)"
  by (cases "invocation s i") (simp_all add: stopSession_def stop_fields)

lemma stopSession_refs:
  "processorRef (stopSession s) = None" "sourceRef (stopSession s) = None"
  "mediaStreamRef (stopSession s) = None" "audioContextRef (stopSession s) = None"
  "sessionRef (stopSession s) = None" "isActive (stopSession s) = False"
  "animationFrameRef (stopSession s) = animationFrameRef s"
  "error (stopSession s) = error s" "nextFrameId (stopSession s) = nextFrameId s"
  by (simp_all add: stopSession_def stop_fields)

lemma sentFrames_append: "sentFrames i (xs @ ys) = sentFrames i xs @ sentFrames i ys"
  by (induction i xs rule: sentFrames.induct) simp_all

lemma sentFrames_sends:
  "sentFrames i (map (SendRealtimeInput j m) ds) = (if j = i then ds else [])"
  by (induction ds) auto

lemma sentFrames_logs: "sentFrames i (replicate n (ConsoleError m)) = []"
  by (induction n) simp_all

lemma sentFrames_releases: "sentFrames i (releases s) = []"
  by (simp add: releases_def sentFrames_append split: option.splits)

lemma sentFrames_stopSession: "sentFrames i (effects (stopSession s)) = sentFrames i (effects s)"
  by (simp add: stopSession_effects sentFrames_append sentFrames_releases)

text \<open>
  The invariant behind it also ties the promise to the phase: there is a promise exactly
  from the moment the invocation is set up.
\<close>

definition frames_inv :: "LiveSession \<Rightarrow> nat \<Rightarrow> string list \<Rightarrow> bool" where
  "frames_inv s i c =
     (case invocation s i of
        None \<Rightarrow> sentFrames i (effects s) = [] \<and> c = []
      | Some v \<Rightarrow>
          (case sessionPromise v of
             None \<Rightarrow> phase v \<noteq> SetUp \<and> \<not> audioRunning v \<and> reactions v = [] \<and>
                     sentFrames i (effects s) = [] \<and> c = []
           | Some Pending \<Rightarrow> phase v = SetUp \<and> sentFrames i (effects s) = [] \<and> reactions v = c
           | Some Fulfilled \<Rightarrow> phase v = SetUp \<and> sentFrames i (effects s) = c \<and> reactions v = []
           | Some Rejected \<Rightarrow> phase v = SetUp \<and> sentFrames i (effects s) = [] \<and> reactions v = []))"

lemma frames_inv_cong:
  "invocation t i = invocation s i \<Longrightarrow> sentFrames i (effects t) = sentFrames i (effects s) \<Longrightarrow>
   frames_inv t i c = frames_inv s i c"
  by (simp add: frames_inv_def split: option.splits PromiseState.splits)

lemmas accessors = phaseOf_def promiseOf_def sessionStateOf_def reactionsOf_def runningOf_def

lemma frames_inv_audio:
  assumes "frames_inv s i c"
  shows "frames_inv (step s (AudioProcess j d)) i
           (c @ (if j = i \<and> runningOf s i then [base64Data d] else []))"
  using assms
  by (cases "invocation s i"; cases "invocation s j")
     (auto simp add: frames_inv_def accessors onaudioprocess_def Let_def thenCallback_def
        catchCallback_def sentFrames_append split: option.splits PromiseState.splits)


lemma frames_inv_other:
  assumes "frames_inv s i c" "\<And>j d. e \<noteq> AudioProcess j d"
  shows "frames_inv (step s e) i c"
proof (cases e)
  case ClickStart
  show ?thesis
  proof (cases "isActive s")
    case True
    then show ?thesis using assms(1) ClickStart by simp
  next
    case False
    have eff: "effects (startSession_begin s) = effects s"
      by (simp add: startSession_begin_def)
    show ?thesis
    proof (cases "i = length (invocations s)")
      case True
      then have "invocation s i = None" by (simp add: invocation_beyond)
      then show ?thesis using assms(1) ClickStart \<open>\<not> isActive s\<close> True
        by (simp add: frames_inv_def invocation_begin eff)
    next
      case False
      then have "frames_inv (startSession_begin s) i c = frames_inv s i c"
        by (intro frames_inv_cong) (simp_all add: invocation_begin eff)
      then show ?thesis using assms(1) ClickStart \<open>\<not> isActive s\<close> by simp
    qed
  qed
next
  case (MicrophoneGranted j)
  then show ?thesis using assms(1)
    by (cases "invocation s i")
       (auto simp add: frames_inv_def accessors startSession_granted_def draw_def
          split: option.splits PromiseState.splits)
next
  case (MicrophoneDenied j)
  then show ?thesis using assms(1)
    by (cases "invocation s i")
       (auto simp add: frames_inv_def accessors startSession_denied_def sentFrames_append
          split: option.splits PromiseState.splits)
next
  case (AudioProcess j d)
  then show ?thesis using assms(2) by simp
next
  case (SessionOpened j)
  then show ?thesis using assms(1)
    by (cases "invocation s i")
       (auto simp add: frames_inv_def accessors onOpen_def
          split: option.splits PromiseState.splits)
next
  case (SessionResolved j)
  then show ?thesis using assms(1)
    by (cases "invocation s i"; cases "invocation s j")
       (auto simp add: frames_inv_def accessors effects_fold_then sentFrames_append
          sentFrames_sends split: option.splits PromiseState.splits)
next
  case (SessionRejected j)
  then show ?thesis using assms(1)
    by (cases "invocation s i"; cases "invocation s j")
       (auto simp add: frames_inv_def accessors effects_fold_catch sentFrames_append
          sentFrames_logs split: option.splits PromiseState.splits)
next
  case (SessionClosed j)
  then show ?thesis using assms(1)
    by (cases "invocation s i")
       (auto simp add: frames_inv_def accessors onClose_def
          split: option.splits PromiseState.splits)
next
  case (SessionError j)
  then show ?thesis using assms(1)
    by (cases "invocation s i")
       (auto simp add: frames_inv_def accessors onError_def stopSession_invocation
          sentFrames_stopSession sentFrames_append split: option.splits PromiseState.splits)
next
  case Stop
  then show ?thesis using assms(1)
    by (cases "invocation s i")
       (auto simp add: frames_inv_def stopSession_invocation sentFrames_stopSession
          split: option.splits PromiseState.splits)
next
  case (AnimationFrame n)
  then show ?thesis using assms(1)
    by (cases "invocation s i")
       (auto simp add: frames_inv_def draw_def split: option.splits PromiseState.splits)
qed

lemma frames_inv_foldl:
  "frames_inv s i c \<Longrightarrow> frames_inv (foldl step s evs) i (c @ capturedFrames s i evs)"
proof (induction evs arbitrary: s c)
  case Nil
  then show ?case by simp
next
  case (Cons e evs)
  show ?case
  proof (cases "\<exists>j d. e = AudioProcess j d")
    case True
    then obtain j d where e: "e = AudioProcess j d" by blast
    have "frames_inv (step s e) i (c @ (if j = i \<and> runningOf s i then [base64Data d] else []))"
      unfolding e using Cons.prems by (rule frames_inv_audio)
    from Cons.IH [OF this] show ?thesis by (simp add: e)
  next
    case False
    then have "frames_inv (step s e) i c"
      using Cons.prems by (intro frames_inv_other) auto
    from Cons.IH [OF this] False show ?thesis by (cases e) simp_all
  qed
qed

lemma frames_inv_run: "frames_inv (run evs) i (capturedFrames mounted i evs)"
proof -
  have "frames_inv mounted i []"
    by (simp add: frames_inv_def invocation_def mounted_def)
  from frames_inv_foldl [OF this, of evs] show ?thesis by (simp add: run_def)
qed

lemma frames_inv_accounted: "frames_inv s i c \<Longrightarrow> frames_accounted s i c"
  by (cases "invocation s i")
     (auto simp add: frames_inv_def frames_accounted_def accessors
        split: option.splits PromiseState.splits)

lemma run_frames_accounted: "frames_accounted (run evs) i (capturedFrames mounted i evs)"
  by (rule frames_inv_accounted) (rule frames_inv_run)

lemma effects_audio:
  "effects (step s (AudioProcess i inputData)) =
     effects s @
     (if runningOf s i
      then (case promiseOf s i of
              Some Fulfilled \<Rightarrow> [SendRealtimeInput i ''audio/pcm;rate=16000'' (base64Data inputData)]
            | Some Rejected \<Rightarrow> [ConsoleError ''Session not ready'']
            | _ \<Rightarrow> [])
      else [])"
  by (simp add: onaudioprocess_def Let_def thenCallback_def catchCallback_def
        split: option.splits PromiseState.splits)

lemma effects_resolved:
  "effects (step s (SessionResolved i)) =
     effects s @
     (if promiseOf s i = Some Pending \<and> sessionStateOf s i \<in> {Some Open, Some Closed}
      then map (SendRealtimeInput i ''audio/pcm;rate=16000'') (reactionsOf s i)
      else [])"
  by (auto simp add: effects_fold_then)

lemma effects_rejected:
  "effects (step s (SessionRejected i)) =
     effects s @
     (if promiseOf s i = Some Pending \<and> sessionStateOf s i = Some Connecting
      then replicate (length (reactionsOf s i)) (ConsoleError ''Session not ready'')
      else [])"
  by (auto simp add: effects_fold_catch)

lemma scenario_sends_three:
  "sentFrames 0 (effects (run [ClickStart, MicrophoneGranted 0, AudioProcess 0 f1,
       SessionOpened 0, SessionResolved 0, AudioProcess 0 f2, AudioProcess 0 f3, Stop]))
     = [base64Data f1, base64Data f2, base64Data f3]"
  by (simp add: run_def mounted_def startSession_begin_def startSession_granted_def draw_def
        accessors invocation_def update_invocation_def onaudioprocess_def onOpen_def
        thenCallback_def sentFrames_stopSession)

text \<open>
  Claim C1, amended. A frame captured before the session is open is not dropped: its send
  waits on the session promise and is performed, in capture order, when the promise
  resolves; a frame captured after that is sent at once. In every run and for every
  invocation the captured frames are therefore all waiting (promise pending) or all sent
  in capture order (promise fulfilled), whatever happened in between, a stop included.
  Frames are dropped only when the promise rejects, each with one console log: the
  rejection logs once per waiting frame, and a frame captured later logs once. In the
  scenario of three frames with the session opening after the first, the three frames
  are sent.
\<close>

theorem pending_frames_are_deferred:
  "frames_accounted (run evs) i (capturedFrames mounted i evs) \<and>
   effects (step s (AudioProcess i inputData)) =
     effects s @
     (if runningOf s i
      then (case promiseOf s i of
              Some Fulfilled \<Rightarrow> [SendRealtimeInput i ''audio/pcm;rate=16000'' (base64Data inputData)]
            | Some Rejected \<Rightarrow> [ConsoleError ''Session not ready'']
            | _ \<Rightarrow> [])
      else []) \<and>
   effects (step s (SessionResolved i)) =
     effects s @
     (if promiseOf s i = Some Pending \<and> sessionStateOf s i \<in> {Some Open, Some Closed}
      then map (SendRealtimeInput i ''audio/pcm;rate=16000'') (reactionsOf s i)
      else []) \<and>
   effects (step s (SessionRejected i)) =
     effects s @
     (if promiseOf s i = Some Pending \<and> sessionStateOf s i = Some Connecting
      then replicate (length (reactionsOf s i)) (ConsoleError ''Session not ready'')
      else []) \<and>
   sentFrames 0 (effects (run [ClickStart, MicrophoneGranted 0, AudioProcess 0 f1,
       SessionOpened 0, SessionResolved 0, AudioProcess 0 f2, AudioProcess 0 f3, Stop]))
     = [base64Data f1, base64Data f2, base64Data f3]"
  by (intro conjI run_frames_accounted effects_audio effects_resolved effects_rejected
        scenario_sends_three)

text \<open>
  Claim C1 says that a frame captured before the session is open is dropped, so that of
  three frames captured, the session opening after the first, two are sent. In that
  scenario the three frames are sent, the first one included.
\<close>

theorem frame_before_open_is_sent_counterexample:
  "sentFrames 0 (effects (run [ClickStart, MicrophoneGranted 0, AudioProcess 0 [Num 1],
       SessionOpened 0, SessionResolved 0, AudioProcess 0 [Num 0], AudioProcess 0 [Num (- 1)],
       Stop]))
     = [base64Data [Num 1], base64Data [Num 0], base64Data [Num (- 1)]] \<and>
   length (sentFrames 0 (effects (run [ClickStart, MicrophoneGranted 0, AudioProcess 0 [Num 1],
       SessionOpened 0, SessionResolved 0, AudioProcess 0 [Num 0], AudioProcess 0 [Num (- 1)],
       Stop])))
     \<noteq> 2"
  by (simp add: run_def mounted_def startSession_begin_def startSession_granted_def draw_def
        accessors invocation_def update_invocation_def onaudioprocess_def onOpen_def
        thenCallback_def sentFrames_stopSession)

lemma releases_no_session_close: "Close (Session i) \<notin> set (releases s)"
  by (simp add: releases_def split: option.splits)

lemma audio_no_close:
  assumes "Close (Session i) \<notin> set (effects s)"
  shows "Close (Session i) \<notin> set (effects (step s (AudioProcess j d)))"
proof -
  have "effects (step s (AudioProcess j d)) = effects s
      \<or> (\<exists>m x. effects (step s (AudioProcess j d)) = effects s @ [SendRealtimeInput j m x])
      \<or> (\<exists>m. effects (step s (AudioProcess j d)) = effects s @ [ConsoleError m])"
    unfolding effects_audio
    by (cases "promiseOf s j" rule: option.exhaust; cases "the (promiseOf s j)") auto
  then show ?thesis using assms by auto
qed

lemma resolved_no_close:
  assumes "Close (Session i) \<notin> set (effects s)"
  shows "Close (Session i) \<notin> set (effects (step s (SessionResolved j)))"
proof -
  have "Close (Session i) \<notin> set (map (SendRealtimeInput j ''audio/pcm;rate=16000'') ds)" for ds
    by auto
  then show ?thesis unfolding effects_resolved using assms by simp
qed

lemma rejected_no_close:
  assumes "Close (Session i) \<notin> set (effects s)"
  shows "Close (Session i) \<notin> set (effects (step s (SessionRejected j)))"
  unfolding effects_rejected using assms by simp

lemma step_never_closes_session:
  assumes "Close (Session i) \<notin> set (effects s)"
  shows "Close (Session i) \<notin> set (effects (step s e))"
proof (cases e)
  case (AudioProcess j d)
  show ?thesis unfolding AudioProcess using assms by (rule audio_no_close)
next
  case (SessionResolved j)
  show ?thesis unfolding SessionResolved using assms by (rule resolved_no_close)
next
  case (SessionRejected j)
  show ?thesis unfolding SessionRejected using assms by (rule rejected_no_close)
next
  case Stop
  then show ?thesis using assms by (simp add: stopSession_effects releases_no_session_close)
next
  case (SessionError j)
  then show ?thesis using assms
    by (simp add: onError_def stopSession_effects releases_no_session_close)
qed (use assms in \<open>simp_all add: startSession_begin_def startSession_granted_def
       startSession_denied_def draw_def onOpen_def onClose_def\<close>)

lemma run_never_closes_session: "Close (Session i) \<notin> set (effects (run evs))"
proof (induction evs rule: rev_induct)
  case Nil
  then show ?case by (simp add: run_def mounted_def)
next
  case (snoc e evs)
  then show ?case using step_never_closes_session [of i "run evs" e] by (simp add: run_def)
qed

lemma stopSession_keeps_sessionState:
  "sessionStateOf (stopSession s) i = sessionStateOf s i"
  by (cases "invocation s i") (simp_all add: sessionStateOf_def stopSession_invocation)

lemma step_closed_by_service:
  assumes "sessionStateOf (step s e) i = Some Closed"
  shows "sessionStateOf s i = Some Closed \<or> e = SessionClosed i"
proof (cases e)
  case (AudioProcess j d)
  then show ?thesis using assms
    by (cases "invocation s i")
       (auto simp add: accessors onaudioprocess_def Let_def thenCallback_def catchCallback_def
          split: option.splits PromiseState.splits if_splits)
next
  case ClickStart
  then show ?thesis using assms
    by (cases "invocation s i")
       (auto simp add: accessors invocation_begin split: if_splits)
next
  case Stop
  then show ?thesis using assms by (simp add: stopSession_keeps_sessionState)
next
  case (SessionError j)
  then show ?thesis using assms
    by (cases "invocation s i")
       (auto simp add: accessors onError_def stopSession_invocation split: if_splits)
qed (use assms in \<open>cases "invocation s i";
       auto simp add: accessors startSession_granted_def startSession_denied_def draw_def
         onOpen_def onClose_def split: if_splits\<close>)+

lemma run_closed_by_service:
  "sessionStateOf (run evs) i = Some Closed \<Longrightarrow> SessionClosed i \<in> set evs"
proof (induction evs rule: rev_induct)
  case Nil
  then show ?case by (simp add: run_def mounted_def accessors invocation_def)
next
  case (snoc e evs)
  then have "sessionStateOf (step (run evs) e) i = Some Closed" by (simp add: run_def)
  then have "sessionStateOf (run evs) i = Some Closed \<or> e = SessionClosed i"
    by (rule step_closed_by_service)
  then show ?case using snoc.IH by auto
qed

lemma stop_then_open:
  assumes "sessionStateOf s i = Some Connecting" "promiseOf s i = Some Pending"
  shows "sessionStateOf (foldl step s [Stop, SessionOpened i, SessionResolved i]) i = Some Open"
proof -
  obtain v where v: "invocation s i = Some v"
    using assms(1) by (cases "invocation s i") (simp_all add: accessors)
  show ?thesis using assms v
    by (simp add: accessors stopSession_invocation onOpen_def)
qed

lemma invocation_begin_Some:
  "invocation s j = Some v \<Longrightarrow> invocation (startSession_begin s) j = Some v"
  by (auto simp add: invocation_def startSession_begin_def nth_append split: if_splits)

lemma begin_fields [simp]:
  "processorRef (startSession_begin s) = processorRef s"
  "audioContextRef (startSession_begin s) = audioContextRef s"
  "effects (startSession_begin s) = effects s"
  by (simp_all add: startSession_begin_def)

lemma fold_callbacks_refs [simp]:
  "processorRef (fold (thenCallback k) ds s) = processorRef s"
  "audioContextRef (fold (thenCallback k) ds s) = audioContextRef s"
  "processorRef (fold catchCallback ds s) = processorRef s"
  "audioContextRef (fold catchCallback ds s) = audioContextRef s"
  by (induction ds arbitrary: s) (simp_all add: thenCallback_def catchCallback_def)

lemma step_ref_set_up:
  assumes "processorRef s = Some j \<longrightarrow> phaseOf s j = Some SetUp"
  shows "processorRef (step s e) = Some j \<longrightarrow> phaseOf (step s e) j = Some SetUp"
proof (cases e)
  case ClickStart
  then show ?thesis using assms
    by (cases "invocation s j") (auto simp add: phaseOf_def invocation_begin_Some)
next
  case (AudioProcess k d)
  then show ?thesis using assms
    by (cases "invocation s j")
       (auto simp add: accessors onaudioprocess_def Let_def thenCallback_def catchCallback_def
          split: option.splits PromiseState.splits)
next
  case Stop
  then show ?thesis by (simp add: stopSession_refs)
next
  case (SessionError k)
  then show ?thesis using assms by (simp add: onError_def stopSession_refs)
next
  case (SessionResolved k)
  then show ?thesis using assms
    by (cases "invocation s j") (auto simp add: accessors)
qed (use assms in \<open>cases "invocation s j";
       auto simp add: accessors startSession_granted_def startSession_denied_def draw_def
         onOpen_def onClose_def\<close>)+


lemma run_ref_set_up: "processorRef (run evs) = Some j \<longrightarrow> phaseOf (run evs) j = Some SetUp"
proof (induction evs rule: rev_induct)
  case Nil
  then show ?case by (simp add: run_def mounted_def)
next
  case (snoc e evs)
  then show ?case using step_ref_set_up [of "run evs" j e] by (simp add: run_def)
qed

lemma step_stays_down:
  assumes "phaseOf s j = Some SetUp" "\<not> runningOf s j"
  shows "phaseOf (step s e) j = Some SetUp \<and> \<not> runningOf (step s e) j"
proof -
  obtain v where v: "invocation s j = Some v" "phase v = SetUp" "\<not> audioRunning v"
    using assms by (cases "invocation s j") (auto simp add: accessors)
  show ?thesis
  proof (cases e)
    case ClickStart
    then show ?thesis using v by (auto simp add: accessors invocation_begin_Some)
  next
    case (AudioProcess k d)
    then show ?thesis using v
      by (auto simp add: accessors onaudioprocess_def Let_def thenCallback_def catchCallback_def
            split: option.splits PromiseState.splits)
  next
    case Stop
    then show ?thesis using v by (auto simp add: accessors stopSession_invocation)
  next
    case (SessionError k)
    then show ?thesis using v by (auto simp add: accessors onError_def stopSession_invocation)
  qed (use v in \<open>auto simp add: accessors startSession_granted_def startSession_denied_def
         draw_def onOpen_def onClose_def\<close>)
qed

lemma foldl_stays_down:
  "phaseOf s j = Some SetUp \<Longrightarrow> \<not> runningOf s j \<Longrightarrow>
   phaseOf (foldl step s evs) j = Some SetUp \<and> \<not> runningOf (foldl step s evs) j"
proof (induction evs arbitrary: s)
  case Nil
  then show ?case by simp
next
  case (Cons e evs)
  then show ?case using step_stays_down [of s j e] by simp
qed

lemma torn_down_stays_down:
  assumes "processorRef (run evs) = Some j"
  shows "\<not> runningOf (foldl step (stopSession (run evs)) later) j"
proof -
  have "phaseOf (run evs) j = Some SetUp" using assms run_ref_set_up by blast
  then obtain v where v: "invocation (run evs) j = Some v" "phase v = SetUp"
    by (cases "invocation (run evs) j") (auto simp add: accessors)
  then have "phaseOf (stopSession (run evs)) j = Some SetUp"
    and "\<not> runningOf (stopSession (run evs)) j"
    using assms by (simp_all add: accessors stopSession_invocation)
  then show ?thesis using foldl_stays_down by blast
qed

lemma captures_nothing_when_down:
  "phaseOf s j = Some SetUp \<Longrightarrow> \<not> runningOf s j \<Longrightarrow> capturedFrames s j evs = []"
proof (induction evs arbitrary: s)
  case Nil
  then show ?case by simp
next
  case (Cons e evs)
  have "phaseOf (step s e) j = Some SetUp \<and> \<not> runningOf (step s e) j"
    using Cons.prems by (rule step_stays_down)
  then have "capturedFrames (step s e) j evs = []"
    using Cons.IH by blast
  then show ?case using Cons.prems(2) by (cases e) simp_all
qed

lemma torn_down_captures_nothing:
  assumes "processorRef (run evs) = Some j"
  shows "capturedFrames (stopSession (run evs)) j later = []"
proof -
  have "phaseOf (run evs) j = Some SetUp" using assms run_ref_set_up by blast
  then obtain v where v: "invocation (run evs) j = Some v" "phase v = SetUp"
    by (cases "invocation (run evs) j") (auto simp add: accessors)
  then have "phaseOf (stopSession (run evs)) j = Some SetUp"
    and "\<not> runningOf (stopSession (run evs)) j"
    using assms by (simp_all add: accessors stopSession_invocation)
  then show ?thesis by (rule captures_nothing_when_down)
qed

text \<open>
  Stopping a component that was never started changes nothing. A second stop in a row
  leaves every ref and state variable as the first one left them and releases none of the
  audio resources again, but it repeats the cancellation of the animation frame.
\<close>

lemma stopSession_mounted: "stopSession mounted = mounted"
  by (simp add: stopSession_def stop_processor_def stop_source_def stop_mediaStream_def
        stop_audioContext_def stop_session_def stop_animationFrame_def mounted_def)

lemma stopSession_released:
  assumes "processorRef t = None" "sourceRef t = None" "mediaStreamRef t = None"
    "audioContextRef t = None" "sessionRef t = None" "isActive t = False"
  shows "stopSession t = stop_animationFrame t"
proof -
  have e: "t\<lparr>isActive := False\<rparr> = t" using assms(6) by (cases t) simp
  show ?thesis
    unfolding stopSession_def e using assms
    by (simp add: stop_processor_def stop_source_def stop_mediaStream_def
          stop_audioContext_def stop_session_def)
qed

lemma stopSession_twice:
  "stopSession (stopSession s) =
     (stopSession s)\<lparr>effects := effects (stopSession s) @
        (case animationFrameRef s of
           Some n \<Rightarrow> if n \<noteq> 0 then [CancelAnimationFrame n] else []
         | None \<Rightarrow> [])\<rparr>"
proof -
  have "stopSession (stopSession s) = stop_animationFrame (stopSession s)"
    by (rule stopSession_released) (simp_all add: stopSession_refs)
  moreover have "frameRequests (stopSession s)
      = (case animationFrameRef s of
           Some n \<Rightarrow> if n \<noteq> 0 then removeAll n (frameRequests s) else frameRequests s
         | None \<Rightarrow> frameRequests s)"
    by (cases "animationFrameRef s") (simp_all add: stopSession_def stop_fields)
  ultimately show ?thesis
    by (cases "animationFrameRef s") (simp_all add: stop_animationFrame_def stopSession_refs)
qed

lemmas run_simps = run_def mounted_def startSession_begin_def startSession_granted_def
  draw_def accessors invocation_def update_invocation_def onaudioprocess_def Let_def
  onOpen_def onClose_def thenCallback_def stopSession_def stop_processor_def stop_source_def
  stop_mediaStream_def stop_audioContext_def stop_session_def stop_animationFrame_def

text \<open>
  Claim C5, amended. The component never calls \<^verbatim>\<open>close()\<close> on a session, whatever the
  events. \<^verbatim>\<open>stopSession\<close> leaves the state of every session as it is, and a session is
  closed only when the service closed it. So a session that is connecting when
  \<^verbatim>\<open>stopSession\<close> is called is open, not closed, once its opening resolves. What
  \<^verbatim>\<open>stopSession\<close> tears down is the capture graph its refs hold: the processor it
  disconnects delivers no audio callback afterwards and captures no frame, whatever
  follows.
\<close>

theorem stopSession_never_closes_session:
  "Close (Session i) \<notin> set (effects (run evs)) \<and>
   sessionStateOf (stopSession s) i = sessionStateOf s i \<and>
   (sessionStateOf (run evs) i = Some Closed \<longrightarrow> SessionClosed i \<in> set evs) \<and>
   (sessionStateOf s i = Some Connecting \<and> promiseOf s i = Some Pending \<longrightarrow>
      sessionStateOf (foldl step s [Stop, SessionOpened i, SessionResolved i]) i = Some Open) \<and>
   (processorRef (run evs) = Some j \<longrightarrow>
      \<not> runningOf (foldl step (stopSession (run evs)) later) j \<and>
      capturedFrames (stopSession (run evs)) j later = [])"
  using run_never_closes_session [of i evs] stopSession_keeps_sessionState [of s i]
    run_closed_by_service [of evs i] stop_then_open [of s i]
    torn_down_stays_down [of evs j later] torn_down_captures_nothing [of evs j later]
  by blast

theorem stopSession_never_closes_session_witness:
  "sessionStateOf (run [ClickStart, MicrophoneGranted 0, SessionOpened 0, SessionClosed 0]) 0
     = Some Closed \<and>
   SessionClosed 0 \<in> set [ClickStart, MicrophoneGranted 0, SessionOpened 0, SessionClosed 0] \<and>
   sessionStateOf (run [ClickStart, MicrophoneGranted 0]) 0 = Some Connecting \<and>
   promiseOf (run [ClickStart, MicrophoneGranted 0]) 0 = Some Pending \<and>
   sessionStateOf (foldl step (run [ClickStart, MicrophoneGranted 0])
      [Stop, SessionOpened 0, SessionResolved 0]) 0 = Some Open \<and>
   processorRef (run [ClickStart, MicrophoneGranted 0, SessionOpened 0, SessionClosed 0])
     = Some 0 \<and>
   \<not> runningOf (foldl step
        (stopSession (run [ClickStart, MicrophoneGranted 0, SessionOpened 0, SessionClosed 0]))
        [AudioProcess 0 [Num 1], ClickStart, AudioProcess 0 [Num 0]]) 0 \<and>
   capturedFrames
     (stopSession (run [ClickStart, MicrophoneGranted 0, SessionOpened 0, SessionClosed 0])) 0
     [AudioProcess 0 [Num 1], ClickStart, AudioProcess 0 [Num 0]] = []"
proof -
  have h1: "sessionStateOf (run [ClickStart, MicrophoneGranted 0, SessionOpened 0,
      SessionClosed 0]) 0 = Some Closed"
    by (simp add: run_simps)
  have h2: "sessionStateOf (run [ClickStart, MicrophoneGranted 0]) 0 = Some Connecting \<and>
      promiseOf (run [ClickStart, MicrophoneGranted 0]) 0 = Some Pending"
    by (simp add: run_simps)
  have h3: "processorRef (run [ClickStart, MicrophoneGranted 0, SessionOpened 0,
      SessionClosed 0]) = Some 0"
    by (simp add: run_simps)
  note t = stopSession_never_closes_session
        [of 0 "[ClickStart, MicrophoneGranted 0, SessionOpened 0, SessionClosed 0]"
            "run [ClickStart, MicrophoneGranted 0]" 0
            "[AudioProcess 0 [Num 1], ClickStart, AudioProcess 0 [Num 0]]"]
  from t h1 have c3: "SessionClosed 0
      \<in> set [ClickStart, MicrophoneGranted 0, SessionOpened 0, SessionClosed 0]"
    by blast
  from t h2 have c4: "sessionStateOf (foldl step (run [ClickStart, MicrophoneGranted 0])
      [Stop, SessionOpened 0, SessionResolved 0]) 0 = Some Open"
    by blast
  from t h3 have c5: "\<not> runningOf (foldl step
        (stopSession (run [ClickStart, MicrophoneGranted 0, SessionOpened 0, SessionClosed 0]))
        [AudioProcess 0 [Num 1], ClickStart, AudioProcess 0 [Num 0]]) 0"
    by blast
  from t h3 have c6: "capturedFrames
     (stopSession (run [ClickStart, MicrophoneGranted 0, SessionOpened 0, SessionClosed 0])) 0
     [AudioProcess 0 [Num 1], ClickStart, AudioProcess 0 [Num 0]] = []"
    by blast
  show ?thesis
    using h1 h2 h3 c3 c4 c5 c6 by blast
qed

text \<open>
  Claim C5 says that \<^verbatim>\<open>close()\<close> is called exactly once for every session that was
  opened, and that a stop requested while the opening is pending leaves the session closed
  once the opening resolves. After a frame, a stop and then the opening, the session is
  open, \<^verbatim>\<open>close()\<close> was not called, and the frame was sent after the stop.
\<close>

theorem stop_while_pending_counterexample:
  "sessionStateOf (run [ClickStart, MicrophoneGranted 0, AudioProcess 0 [Num 1], Stop,
       SessionOpened 0, SessionResolved 0]) 0 = Some Open \<and>
   effects (run [ClickStart, MicrophoneGranted 0, AudioProcess 0 [Num 1], Stop,
       SessionOpened 0, SessionResolved 0])
     = [Disconnect (Processor 0), Disconnect (Source 0), StopTracks (MediaStream 0),
        Close (AudioContext 0), CancelAnimationFrame 1,
        SendRealtimeInput 0 ''audio/pcm;rate=16000'' (base64Data [Num 1])] \<and>
   count_list (effects (run [ClickStart, MicrophoneGranted 0, AudioProcess 0 [Num 1], Stop,
       SessionOpened 0, SessionResolved 0])) (Close (Session 0)) \<noteq> 1"
  by (simp add: run_simps)

text \<open>
  Claim C7 says that a second stop in a row does not release again what was released.
  After a start, the first stop releases the four audio resources and cancels animation
  frame 1; the second stop cancels animation frame 1 again, its id being still in
  \<^verbatim>\<open>animationFrameRef\<close>.
\<close>

theorem stopSession_twice_cancels_frame_again:
  "effects (run [ClickStart, MicrophoneGranted 0, Stop])
     = [Disconnect (Processor 0), Disconnect (Source 0), StopTracks (MediaStream 0),
        Close (AudioContext 0), CancelAnimationFrame 1] \<and>
   effects (run [ClickStart, MicrophoneGranted 0, Stop, Stop])
     = [Disconnect (Processor 0), Disconnect (Source 0), StopTracks (MediaStream 0),
        Close (AudioContext 0), CancelAnimationFrame 1, CancelAnimationFrame 1]"
  by (simp add: run_simps)

text \<open>
  A stop does not reach the other invocations. Called while the microphone is awaited, it
  finds every ref empty and releases nothing, and the invocation then sets its graph up
  and sends its frames; and a start after a stop sets up a new graph.
\<close>

lemma stop_before_grant_still_captures:
  "sentFrames 0 (effects (run [ClickStart, Stop, MicrophoneGranted 0, SessionOpened 0,
       SessionResolved 0, AudioProcess 0 inputData])) = [base64Data inputData]"
  by (simp add: run_simps)

lemma restart_after_stop:
  "runningOf (run [ClickStart, MicrophoneGranted 0, SessionOpened 0, Stop, ClickStart,
       MicrophoneGranted 1]) 1 \<and>
   \<not> runningOf (run [ClickStart, MicrophoneGranted 0, SessionOpened 0, Stop, ClickStart,
       MicrophoneGranted 1]) 0"
  by (simp add: run_simps)

end
